theory Spec2Isabelle
  imports Main "HOL-Library.Word"
begin

unbundle bit_operations_syntax

section \<open>Data model of the driver (at24c256.h)\<close>

type_synonym u8 = "8 word"
type_synonym u16 = "16 word"
type_synonym u32 = "32 word"

text \<open>The enum \<open>at24c256_err_t\<close> and the integer value of each enumerator.\<close>

datatype at24c256_err_t =
    AT24C256_OK
  | AT24C256_ERROR_INIT
  | AT24C256_ERROR_WRITE
  | AT24C256_ERROR_READ
  | AT24C256_ERROR_PARAM
  | AT24C256_ERROR_MEMORY
  | AT24C256_ERROR_BUSY
  | AT24C256_ERROR_TIMEOUT

fun err_value :: "at24c256_err_t \<Rightarrow> int" where
  "err_value AT24C256_OK = 0"
| "err_value AT24C256_ERROR_INIT = -1"
| "err_value AT24C256_ERROR_WRITE = -2"
| "err_value AT24C256_ERROR_READ = -3"
| "err_value AT24C256_ERROR_PARAM = -4"
| "err_value AT24C256_ERROR_MEMORY = -5"
| "err_value AT24C256_ERROR_BUSY = -6"
| "err_value AT24C256_ERROR_TIMEOUT = -7"

record at24c256_config_t =
  i2c_bus :: string
  device_addr :: u8
  page_size :: u16
  total_size :: u32
  write_delay_ms :: u16

definition AT24C256_DEFAULT_CONFIG :: at24c256_config_t where
  "AT24C256_DEFAULT_CONFIG =
     \<lparr>i2c_bus = ''/dev/i2c-5'', device_addr = 0x50, page_size = 64,
      total_size = 32768, write_delay_ms = 5\<rparr>"

text \<open>\<open>struct at24c256_dev_s\<close>; a handle is a pointer to it, \<open>None\<close> being \<open>NULL\<close>.\<close>

record at24c256_dev_s =
  fd :: int
  config :: at24c256_config_t
  initialized :: bool

type_synonym at24c256_handle_t = "at24c256_dev_s option"

section \<open>The environment: channel, device, clock and allocator\<close>

text \<open>
  Modelled from the spec: the channel and the device behind it, the clock and the allocator.
  The driver reaches them through \<open>open\<close>, \<open>ioctl\<close>, \<open>write\<close>, \<open>read\<close>, \<open>close\<close>,
  \<open>usleep\<close>, \<open>clock_gettime\<close> and \<open>malloc\<close>, none of which is code of the repository.
  The specification describes the channel as byte-oriented and addressed by a 16-bit
  pointer (a write carries two address bytes, high byte first, then the payload; a read
  delivers bytes from the pointer on) and the device as paged: a write that crosses the end
  of a page wraps within that page. They are a state that every function takes and returns:

  \<^item> \<open>mem\<close>: the device's cells, one byte per 16-bit address;
  \<^item> \<open>ptr\<close>: the device's internal address counter;
  \<^item> \<open>dev_page\<close>: the device's physical page length;
  \<^item> \<open>script\<close>: the outcomes of the coming system calls on the channel, \<open>True\<close> for a
    complete transfer and \<open>False\<close> for a failed one (result \<open>-1\<close>, no effect on the
    device); when the script is used up every call succeeds;
  \<^item> \<open>trace\<close>: every system call and every sleep so far, oldest first;
  \<^item> \<open>clock\<close>: the monotonic clock in microseconds, advanced by \<open>usleep\<close>;
  \<^item> \<open>heap_exhausted\<close>: whether \<open>malloc\<close> returns \<open>NULL\<close>.
\<close>

datatype event =
    Sys_open string bool
  | Sys_ioctl u8 bool
  | Sys_close int
  | I2C_write "u8 list" bool
  | I2C_read nat bool
  | Usleep nat

record machine =
  mem :: "u16 \<Rightarrow> u8"
  ptr :: u16
  dev_page :: nat
  script :: "bool list"
  trace :: "event list"
  clock :: nat
  heap_exhausted :: bool

definition outcome :: "machine \<Rightarrow> bool" where
  "outcome m = (case script m of [] \<Rightarrow> True | ok # _ \<Rightarrow> ok)"

definition consume :: "event \<Rightarrow> machine \<Rightarrow> machine" where
  "consume e m = m\<lparr>script := tl (script m), trace := trace m @ [e]\<rparr>"

text \<open>The address pointer on the wire: high byte first.\<close>

definition addr_hi :: "u16 \<Rightarrow> u8" where
  "addr_hi a = ucast (drop_bit 8 a AND 0xFF)"

definition addr_lo :: "u16 \<Rightarrow> u8" where
  "addr_lo a = ucast (a AND 0xFF)"

definition addr_of_bytes :: "u8 \<Rightarrow> u8 \<Rightarrow> u16" where
  "addr_of_bytes hi lo = push_bit 8 (ucast hi) OR ucast lo"

text \<open>The address counter after one programmed byte: it rolls over inside the page.\<close>

definition next_in_page :: "nat \<Rightarrow> u16 \<Rightarrow> u16" where
  "next_in_page ps a =
     (if ps \<noteq> 0 \<and> (unat a + 1) mod ps = 0 then a + 1 - of_nat ps else a + 1)"

fun dev_program :: "nat \<Rightarrow> (u16 \<Rightarrow> u8) \<times> u16 \<Rightarrow> u8 list \<Rightarrow> (u16 \<Rightarrow> u8) \<times> u16" where
  "dev_program ps (cells, a) [] = (cells, a)"
| "dev_program ps (cells, a) (b # bs) = dev_program ps (cells(a := b), next_in_page ps a) bs"

text \<open>
  \<open>write(fd, buf, n)\<close> on the channel: the first two bytes set the address counter, the
  rest is programmed from there. The result is the number of bytes transferred or \<open>-1\<close>.
\<close>

definition i2c_write :: "machine \<Rightarrow> u8 list \<Rightarrow> int \<times> machine" where
  "i2c_write m buf =
     (if \<not> outcome m then (-1, consume (I2C_write buf False) m)
      else
        (int (length buf),
         (case buf of
            hi # lo # payload \<Rightarrow>
              (case dev_program (dev_page m) (mem m, addr_of_bytes hi lo) payload of
                 (cells, a) \<Rightarrow> consume (I2C_write buf True) (m\<lparr>mem := cells, ptr := a\<rparr>))
          | _ \<Rightarrow> consume (I2C_write buf True) m)))"

text \<open>\<open>read(fd, buf, n)\<close>: \<open>n\<close> bytes from the address counter on, which advances.\<close>

definition i2c_read :: "machine \<Rightarrow> nat \<Rightarrow> int \<times> u8 list \<times> machine" where
  "i2c_read m n =
     (if \<not> outcome m then (-1, [], consume (I2C_read n False) m)
      else
        (int n, map (\<lambda>i. mem m (ptr m + of_nat i)) [0..<n],
         consume (I2C_read n True) (m\<lparr>ptr := ptr m + of_nat n\<rparr>)))"

definition usleep :: "nat \<Rightarrow> machine \<Rightarrow> machine" where
  "usleep us m = m\<lparr>trace := trace m @ [Usleep us], clock := clock m + us\<rparr>"

section \<open>The driver (at24c256.c)\<close>

definition error_strings :: "string list" where
  "error_strings =
     [''Success'', ''Initialization failed'', ''Write operation failed'',
      ''Read operation failed'', ''Invalid parameter'', ''Memory allocation failed'',
      ''Device busy'', ''Operation timeout'']"

definition check_address_length :: "at24c256_handle_t \<Rightarrow> u16 \<Rightarrow> u16 \<Rightarrow> at24c256_err_t" where
  "check_address_length handle address len =
     (case handle of
        None \<Rightarrow> AT24C256_ERROR_INIT
      | Some dev \<Rightarrow>
          if \<not> initialized dev then AT24C256_ERROR_INIT
          else if unat address + unat len > unat (total_size (config dev))
            then AT24C256_ERROR_PARAM
          else if len = 0 then AT24C256_ERROR_PARAM
          else AT24C256_OK)"

text \<open>
  \<open>internal_wait_ready\<close>. The clock is read as a \<open>timespec\<close>: whole seconds and
  nanoseconds. The elapsed milliseconds are computed as the code does, the division of the
  nanosecond difference truncating towards zero as in C. The value is then held in a
  \<open>uint64_t\<close>, where a negative one would be above every 32-bit timeout. Each round makes
  one read attempt, compares, and sleeps one millisecond.
\<close>

definition c_div :: "int \<Rightarrow> int \<Rightarrow> int" where
  "c_div a b = (if (a < 0) = (b < 0) then \<bar>a\<bar> div \<bar>b\<bar> else - (\<bar>a\<bar> div \<bar>b\<bar>))"

definition tv_sec :: "nat \<Rightarrow> int" where
  "tv_sec t = int (t div 1000000)"

definition tv_nsec :: "nat \<Rightarrow> int" where
  "tv_nsec t = int (t mod 1000000) * 1000"

definition elapsed_ms :: "nat \<Rightarrow> nat \<Rightarrow> int" where
  "elapsed_ms start current =
     (tv_sec current - tv_sec start) * 1000 + c_div (tv_nsec current - tv_nsec start) 1000000"

function internal_wait_ready_loop :: "machine \<Rightarrow> nat \<Rightarrow> u32 \<Rightarrow> at24c256_err_t \<times> machine" where
  "internal_wait_ready_loop m start timeout_ms =
     (case i2c_read m 1 of
        (n, dummy, m1) \<Rightarrow>
          if n \<ge> 0 then (AT24C256_OK, m1)
          else if elapsed_ms start (clock m1) < 0
                  \<or> elapsed_ms start (clock m1) \<ge> int (unat timeout_ms)
            then (AT24C256_ERROR_TIMEOUT, m1)
          else internal_wait_ready_loop (usleep 1000 m1) start timeout_ms)"
  by pat_completeness auto
termination
proof (relation "measure (\<lambda>(m, start, t). (start + unat t * 1000) - clock m)")
  show "wf (measure (\<lambda>(m, start, t). (start + unat t * 1000) - clock m))"
    by simp
next
  fix m m1 :: machine and start :: nat and timeout_ms :: u32 and n :: int
    and rest :: "u8 list \<times> machine" and dummy :: "u8 list"
  assume rd: "(n, rest) = i2c_read m 1" and rest: "(dummy, m1) = rest" and "\<not> 0 \<le> n"
    and go: "\<not> (elapsed_ms start (clock m1) < 0
                \<or> int (unat timeout_ms) \<le> elapsed_ms start (clock m1))"
  have clk: "clock m1 = clock m"
    using rd rest by (auto simp: i2c_read_def consume_def split: if_splits)
  let ?now = "clock m1"
  let ?T = "unat timeout_ms"
  have lt: "?now < start + ?T * 1000"
  proof (cases "start \<le> ?now")
    case False
    then show ?thesis by simp
  next
    case True
    define d where "d = int (?now mod 1000000) - int (start mod 1000000)"
    define c where "c = (if 0 \<le> d then d div 1000 else - ((- d) div 1000))"
    have cd: "c_div (d * 1000) 1000000 = c"
    proof (cases "0 \<le> d")
      case True
      then show ?thesis
        by (simp add: c_div_def c_def)
    next
      case False
      then have "\<bar>d * 1000\<bar> = (- d) * 1000" by simp
      then show ?thesis using False
        by (simp add: c_div_def c_def)
    qed
    have e: "elapsed_ms start ?now
             = (int (?now div 1000000) - int (start div 1000000)) * 1000 + c"
      using cd by (simp add: elapsed_ms_def tv_sec_def tv_nsec_def d_def algebra_simps)
    have split: "int k = 1000000 * int (k div 1000000) + int (k mod 1000000)" for k :: nat
    proof -
      have "k = 1000000 * (k div 1000000) + k mod 1000000" by simp
      then have "int k = int (1000000 * (k div 1000000) + k mod 1000000)" by (rule arg_cong)
      then show ?thesis by (simp only: of_nat_add of_nat_mult of_nat_numeral)
    qed
    have diff: "int (?now - start)
                = 1000000 * (int (?now div 1000000) - int (start div 1000000)) + d"
    proof -
      have "int (?now - start) = int ?now - int start"
        using True by (simp only: of_nat_diff)
      moreover have "N - S = 1000000 * (a - b) + (p - q)"
        if "N = 1000000 * a + p" "S = 1000000 * b + q" for N S a b p q :: int
        using that by simp
      ultimately show ?thesis
        using split[of ?now] split[of start] unfolding d_def by presburger
    qed
    have "d < 1000 * c + 1000"
    proof (cases "0 \<le> d")
      case True
      have "d = 1000 * (d div 1000) + d mod 1000" by simp
      moreover have "d mod 1000 < 1000" by simp
      ultimately show ?thesis using True by (simp add: c_def)
    next
      case False
      have "1000 * ((- d) div 1000) \<le> - d"
        using False by (simp add: mult.commute)
      then show ?thesis using False by (simp add: c_def)
    qed
    moreover have "elapsed_ms start ?now + 1 \<le> int ?T"
      using go by linarith
    moreover have "X < 1000 * T"
      if "X = 1000000 * A + d" "E = A * 1000 + c" "d < 1000 * c + 1000" "E + 1 \<le> T"
      for X A E T :: int
      using that by linarith
    ultimately have "int (?now - start) < 1000 * int ?T"
      using e diff by blast
    then have "int (?now - start) < int (?T * 1000)"
      by (simp only: of_nat_mult of_nat_numeral mult.commute)
    then have "?now - start < ?T * 1000"
      by (simp only: of_nat_less_iff)
    then show ?thesis using True by linarith
  qed
  show "((usleep 1000 m1, start, timeout_ms), m, start, timeout_ms)
        \<in> measure (\<lambda>(m, start, t). (start + unat t * 1000) - clock m)"
    using lt by (simp add: usleep_def clk)
qed

definition internal_wait_ready :: "machine \<Rightarrow> u32 \<Rightarrow> at24c256_err_t \<times> machine" where
  "internal_wait_ready m timeout_ms = internal_wait_ready_loop m (clock m) timeout_ms"

text \<open>
  \<open>at24c256_init\<close>: \<open>config\<close> and \<open>handle_out\<close> are the two pointer arguments (\<open>None\<close> for a
  null configuration, \<open>False\<close> for a null result pointer).
\<close>

definition at24c256_init ::
  "at24c256_config_t option \<Rightarrow> bool \<Rightarrow> machine \<Rightarrow> at24c256_err_t \<times> at24c256_handle_t \<times> machine" where
  "at24c256_init cfg handle_out m =
     (case cfg of
        None \<Rightarrow> (AT24C256_ERROR_PARAM, None, m)
      | Some c \<Rightarrow>
          if \<not> handle_out then (AT24C256_ERROR_PARAM, None, m)
          else if heap_exhausted m then (AT24C256_ERROR_MEMORY, None, m)
          else if \<not> outcome m
            then (AT24C256_ERROR_INIT, None, consume (Sys_open (i2c_bus c) False) m)
          else
            (let m1 = consume (Sys_open (i2c_bus c) True) m in
             if \<not> outcome m1
               then (AT24C256_ERROR_INIT, None,
                     consume (Sys_close 3) (consume (Sys_ioctl (device_addr c) False) m1))
             else
               (AT24C256_OK, Some \<lparr>fd = 3, config = c, initialized = True\<rparr>,
                consume (Sys_ioctl (device_addr c) True) m1)))"

definition at24c256_deinit :: "at24c256_handle_t \<Rightarrow> machine \<Rightarrow> at24c256_err_t \<times> machine" where
  "at24c256_deinit handle m =
     (case handle of
        None \<Rightarrow> (AT24C256_ERROR_PARAM, m)
      | Some dev \<Rightarrow>
          (AT24C256_OK, if fd dev \<ge> 0 then m\<lparr>trace := trace m @ [Sys_close (fd dev)]\<rparr> else m))"

text \<open>
  \<open>at24c256_read\<close>: \<open>data\<close> is the caller's buffer (\<open>None\<close> for \<open>NULL\<close>), assumed to have
  room for \<open>len\<close> bytes; the result carries the buffer after the call.
\<close>

definition at24c256_read ::
  "at24c256_handle_t \<Rightarrow> machine \<Rightarrow> u16 \<Rightarrow> u8 list option \<Rightarrow> u16
     \<Rightarrow> at24c256_err_t \<times> u8 list option \<times> machine" where
  "at24c256_read handle m address data len =
     (let ret = check_address_length handle address len in
      if ret \<noteq> AT24C256_OK then (ret, data, m)
      else if data = None then (AT24C256_ERROR_PARAM, data, m)
      else
        (case i2c_write m [addr_hi address, addr_lo address] of
           (n, m1) \<Rightarrow>
             if n \<noteq> 2 then (AT24C256_ERROR_READ, data, m1)
             else
               (case i2c_read m1 (unat len) of
                  (bytes_read, bytes, m2) \<Rightarrow>
                    if bytes_read \<noteq> int (unat len) then (AT24C256_ERROR_READ, data, m2)
                    else (AT24C256_OK, Some bytes, m2))))"

text \<open>
  The \<open>while (remaining > 0)\<close> loop of \<open>at24c256_write\<close>. The result \<open>None\<close> stands for
  undefined behaviour of the C code: the remainder by a page size of zero, and a copy that
  reads past the end of the caller's data.
\<close>

function write_loop ::
  "at24c256_dev_s \<Rightarrow> machine \<Rightarrow> u16 \<Rightarrow> u16 \<Rightarrow> u8 list \<Rightarrow> (at24c256_err_t \<times> machine) option" where
  "write_loop dev m remaining current_addr current_data =
     (if \<not> remaining > 0 then Some (AT24C256_OK, m)
      else if page_size (config dev) = 0 then None
      else
        (let page_offset = current_addr mod page_size (config dev);
             bytes_in_page0 = page_size (config dev) - page_offset;
             bytes_in_page = (if bytes_in_page0 > remaining then remaining else bytes_in_page0)
         in
           if length current_data < unat bytes_in_page then None
           else
             (case i2c_write m (addr_hi current_addr # addr_lo current_addr
                                  # take (unat bytes_in_page) current_data) of
                (bytes_written, m1) \<Rightarrow>
                  if bytes_written \<noteq> int (unat bytes_in_page) + 2
                    then Some (AT24C256_ERROR_WRITE, m1)
                  else
                    write_loop dev (usleep (unat (write_delay_ms (config dev)) * 1000) m1)
                      (remaining - bytes_in_page) (current_addr + bytes_in_page)
                      (drop (unat bytes_in_page) current_data))))"
  by pat_completeness auto
termination
proof (relation "measure (\<lambda>(dev, m, remaining, current_addr, current_data). unat remaining)")
  show "wf (measure (\<lambda>(dev, m, remaining, current_addr, current_data). unat remaining))"
    by simp
next
  fix dev :: at24c256_dev_s and m m1 :: machine and remaining current_addr :: u16
    and current_data :: "u8 list" and page_offset bytes_in_page0 bytes_in_page :: u16
    and bytes_written :: int
  assume rem: "\<not> \<not> 0 < remaining" and ps: "page_size (config dev) \<noteq> 0"
    and po: "page_offset = current_addr mod page_size (config dev)"
    and b0: "bytes_in_page0 = page_size (config dev) - page_offset"
    and b: "bytes_in_page = (if remaining < bytes_in_page0 then remaining else bytes_in_page0)"
  have "0 < unat (page_size (config dev))"
    using ps by (simp add: unat_gt_0)
  then have lt: "unat page_offset < unat (page_size (config dev))"
    by (simp add: po unat_mod)
  then have "page_offset \<le> page_size (config dev)"
    by (simp add: word_le_nat_alt)
  then have "unat bytes_in_page0 = unat (page_size (config dev)) - unat page_offset"
    by (simp add: b0 unat_sub)
  then have pos0: "0 < unat bytes_in_page0"
    using lt by simp
  have posr: "0 < unat remaining"
    using rem by (simp add: word_less_nat_alt)
  have pos: "0 < unat bytes_in_page"
    using pos0 posr by (simp add: b)
  have le: "unat bytes_in_page \<le> unat remaining"
    by (simp add: b word_less_nat_alt)
  then have "unat (remaining - bytes_in_page) = unat remaining - unat bytes_in_page"
    by (simp add: unat_sub word_le_nat_alt)
  then show "((dev, usleep (unat (write_delay_ms (config dev)) * 1000) m1,
               remaining - bytes_in_page, current_addr + bytes_in_page,
               drop (unat bytes_in_page) current_data),
              dev, m, remaining, current_addr, current_data)
             \<in> measure (\<lambda>(dev, m, remaining, current_addr, current_data). unat remaining)"
    using pos le by simp
qed

definition at24c256_write ::
  "at24c256_handle_t \<Rightarrow> machine \<Rightarrow> u16 \<Rightarrow> u8 list option \<Rightarrow> u16
     \<Rightarrow> (at24c256_err_t \<times> machine) option" where
  "at24c256_write handle m address data len =
     (let ret = check_address_length handle address len in
      if ret \<noteq> AT24C256_OK then Some (ret, m)
      else
        (case data of
           None \<Rightarrow> Some (AT24C256_ERROR_PARAM, m)
         | Some buf \<Rightarrow>
             (case handle of
                None \<Rightarrow> None
              | Some dev \<Rightarrow> write_loop dev m len address buf)))"

definition at24c256_erase ::
  "at24c256_handle_t \<Rightarrow> machine \<Rightarrow> u16 \<Rightarrow> u16 \<Rightarrow> (at24c256_err_t \<times> machine) option" where
  "at24c256_erase handle m address len =
     (let ret = check_address_length handle address len in
      if ret \<noteq> AT24C256_OK then Some (ret, m)
      else if heap_exhausted m then Some (AT24C256_ERROR_MEMORY, m)
      else at24c256_write handle m address (Some (replicate (unat len) 0xFF)) len)"

definition at24c256_wait_ready ::
  "at24c256_handle_t \<Rightarrow> machine \<Rightarrow> u32 \<Rightarrow> at24c256_err_t \<times> machine" where
  "at24c256_wait_ready handle m timeout_ms =
     (case handle of
        None \<Rightarrow> (AT24C256_ERROR_INIT, m)
      | Some dev \<Rightarrow>
          if \<not> initialized dev then (AT24C256_ERROR_INIT, m)
          else internal_wait_ready m timeout_ms)"

definition at24c256_get_info ::
  "at24c256_handle_t \<Rightarrow> bool \<Rightarrow> at24c256_err_t \<times> at24c256_config_t option" where
  "at24c256_get_info handle config_out =
     (case handle of
        None \<Rightarrow> (AT24C256_ERROR_PARAM, None)
      | Some dev \<Rightarrow>
          if \<not> initialized dev \<or> \<not> config_out then (AT24C256_ERROR_PARAM, None)
          else (AT24C256_OK, Some (config dev)))"

text \<open>
  \<open>at24c256_strerror\<close>: \<open>err\<close> is the \<open>int\<close> behind the enum type, and \<open>index = -err\<close> is
  the machine negation, which maps the least \<open>int\<close> to itself. A table access outside the
  eight entries would be \<open>None\<close>.
\<close>

definition at24c256_strerror :: "u32 \<Rightarrow> string option" where
  "at24c256_strerror err =
     (let index = - err in
      if sint index < 0 \<or> sint index \<ge> int (length error_strings) then Some ''Unknown error''
      else if nat (sint index) < length error_strings
        then Some (error_strings ! nat (sint index))
      else None)"

section \<open>The file index layer (camera_data_write.c, camera_data_read.c)\<close>

definition EEPROM_START_ADDRESS :: u16 where
  "EEPROM_START_ADDRESS = 0x0000"

definition MAX_FILE_SIZE :: nat where
  "MAX_FILE_SIZE = 32 * 1024"

definition MAX_FILENAME_LENGTH :: nat where
  "MAX_FILENAME_LENGTH = 64"

definition MAX_FILES :: nat where
  "MAX_FILES = 16"

definition EXIT_SUCCESS :: int where
  "EXIT_SUCCESS = 0"

definition EXIT_FAILURE :: int where
  "EXIT_FAILURE = 1"

text \<open>
  \<open>file_index_t\<close> and \<open>index_header_t\<close>. The C field \<open>size\<close> is \<open>fsize\<close> here and the
  header's \<open>total_size\<close> is \<open>index_total_size\<close>. The name is the 64-byte array. With two-byte
  alignment of \<open>uint16_t\<close> the structs take 70 and 16 bytes, the entry ending in one padding
  byte; the host is little-endian.
\<close>

record file_index_t =
  filename :: "u8 list"
  address :: u16
  fsize :: u16
  checksum :: u8

record index_header_t =
  magic :: "u8 list"
  version :: u8
  file_count :: u8
  index_total_size :: u16
  reserved :: "u8 list"

definition sizeof_file_index_t :: nat where
  "sizeof_file_index_t = 70"

definition sizeof_index_header_t :: nat where
  "sizeof_index_header_t = 16"

definition u16_bytes :: "u16 \<Rightarrow> u8 list" where
  "u16_bytes w = [ucast w, ucast (drop_bit 8 w)]"

definition u16_of_bytes :: "u8 \<Rightarrow> u8 \<Rightarrow> u16" where
  "u16_of_bytes lo hi = ucast lo OR push_bit 8 (ucast hi)"

text \<open>The bytes behind \<open>(uint8_t*)&header\<close> and \<open>(uint8_t*)&files[i]\<close>, and the way back.
  The code never sets the padding byte of an entry; the model writes 0 there.\<close>

definition header_bytes :: "index_header_t \<Rightarrow> u8 list" where
  "header_bytes h =
     magic h @ [version h, file_count h] @ u16_bytes (index_total_size h) @ reserved h"

definition header_of_bytes :: "u8 list \<Rightarrow> index_header_t" where
  "header_of_bytes bs =
     \<lparr>magic = take 4 bs, version = bs ! 4, file_count = bs ! 5,
      index_total_size = u16_of_bytes (bs ! 6) (bs ! 7), reserved = take 8 (drop 8 bs)\<rparr>"

definition entry_bytes :: "file_index_t \<Rightarrow> u8 list" where
  "entry_bytes f =
     filename f @ u16_bytes (address f) @ u16_bytes (fsize f) @ [checksum f, 0]"

definition entry_of_bytes :: "u8 list \<Rightarrow> file_index_t" where
  "entry_of_bytes bs =
     \<lparr>filename = take 64 bs, address = u16_of_bytes (bs ! 64) (bs ! 65),
      fsize = u16_of_bytes (bs ! 66) (bs ! 67), checksum = bs ! 68\<rparr>"

definition CAM_magic :: "u8 list" where
  "CAM_magic = [0x43, 0x41, 0x4D, 0x00]"

text \<open>C strings: the bytes before the first NUL; \<open>strrchr\<close> for the base name and for the
  extension; \<open>strncpy\<close> of at most 63 bytes into the zero-padded name field.\<close>

definition c_str :: "u8 list \<Rightarrow> u8 list" where
  "c_str bs = takeWhile (\<lambda>b. b \<noteq> 0) bs"

definition basename :: "string \<Rightarrow> string" where
  "basename path = rev (takeWhile (\<lambda>c. c \<noteq> CHR ''/'') (rev path))"

definition extension :: "string \<Rightarrow> string option" where
  "extension name =
     (if CHR ''.'' \<in> set name
      then Some (CHR ''.'' # rev (takeWhile (\<lambda>c. c \<noteq> CHR ''.'') (rev name)))
      else None)"

definition name_field :: "string \<Rightarrow> u8 list" where
  "name_field name =
     (let src = take (MAX_FILENAME_LENGTH - 1) (c_str (map of_char name))
      in src @ replicate (MAX_FILENAME_LENGTH - length src) 0)"

definition calculate_checksum :: "u8 list \<Rightarrow> u8" where
  "calculate_checksum data = foldl (\<lambda>checksum b. checksum XOR b) 0 data"

subsection \<open>Writing (camera_data_write.c)\<close>

text \<open>
  A directory entry of the host: its name, whether \<open>stat\<close> finds a regular file, and the
  bytes \<open>fopen\<close> and \<open>fread\<close> deliver (\<open>None\<close> when the file cannot be opened).
\<close>

record dirent =
  d_name :: string
  is_regular :: bool
  contents :: "u8 list option"

text \<open>
  \<open>write_file_to_eeprom\<close>: the result code, the entry stored through \<open>file_info\<close> on
  success, and the machine. \<open>sleep(1)\<close> is a sleep of 1000000 microseconds.
\<close>

definition write_file_to_eeprom ::
  "at24c256_handle_t \<Rightarrow> machine \<Rightarrow> string \<Rightarrow> u8 list option \<Rightarrow> u16
     \<Rightarrow> (int \<times> file_index_t option \<times> machine) option" where
  "write_file_to_eeprom handle m path file addr =
     (case file of
        None \<Rightarrow> Some (-1, None, m)
      | Some buffer \<Rightarrow>
          (let file_size = length buffer in
           if file_size > MAX_FILE_SIZE then Some (-1, None, m)
           else if heap_exhausted m then Some (-1, None, m)
           else
             (case at24c256_write handle m addr (Some buffer) (of_nat file_size) of
                None \<Rightarrow> None
              | Some (ret, m1) \<Rightarrow>
                  if ret \<noteq> AT24C256_OK then Some (-1, None, m1)
                  else
                    Some (0,
                      Some \<lparr>filename = name_field (basename path), address = addr,
                            fsize = of_nat file_size, checksum = calculate_checksum buffer\<rparr>,
                      usleep 1000000 m1))))"

text \<open>
  The \<open>readdir\<close> loop of \<open>process_camera_parameters\<close>. \<open>files\<close> is the part of the array
  filled so far, so \<open>*file_count\<close> is its length; storing a seventeenth entry runs past
  the array of \<open>MAX_FILES\<close> entries and is \<open>None\<close>.
\<close>

fun process_entries ::
  "at24c256_handle_t \<Rightarrow> string \<Rightarrow> dirent list \<Rightarrow> machine \<Rightarrow> file_index_t list \<Rightarrow> u16
     \<Rightarrow> (file_index_t list \<times> machine) option" where
  "process_entries handle input_dir [] m files current_address = Some (files, m)"
| "process_entries handle input_dir (entry # rest) m files current_address =
     (if d_name entry = ''.'' \<or> d_name entry = ''..''
        then process_entries handle input_dir rest m files current_address
      else if extension (d_name entry) \<noteq> Some ''.dat''
        then process_entries handle input_dir rest m files current_address
      else if \<not> is_regular entry
        then process_entries handle input_dir rest m files current_address
      else
        (case write_file_to_eeprom handle m (take 511 (input_dir @ ''/'' @ d_name entry))
                (contents entry) current_address of
           None \<Rightarrow> None
         | Some (r, info, m1) \<Rightarrow>
             if r = 0 then
               (case info of
                  None \<Rightarrow> None
                | Some file_info \<Rightarrow>
                    if length files \<ge> MAX_FILES then None
                    else process_entries handle input_dir rest m1 (files @ [file_info])
                           (current_address + fsize file_info))
             else process_entries handle input_dir rest m1 files current_address))"

definition process_camera_parameters ::
  "at24c256_handle_t \<Rightarrow> machine \<Rightarrow> string \<Rightarrow> dirent list option
     \<Rightarrow> (int \<times> file_index_t list \<times> machine) option" where
  "process_camera_parameters handle m input_dir dir =
     (case dir of
        None \<Rightarrow> Some (-1, [], m)
      | Some entries \<Rightarrow>
          (case process_entries handle input_dir entries m []
                  (EEPROM_START_ADDRESS + of_nat sizeof_index_header_t
                     + of_nat (MAX_FILES * sizeof_file_index_t)) of
             None \<Rightarrow> None
           | Some (files, m1) \<Rightarrow> Some (int (length files), files, m1)))"

fun write_index_entries ::
  "at24c256_handle_t \<Rightarrow> machine \<Rightarrow> file_index_t list \<Rightarrow> u16 \<Rightarrow> (int \<times> machine) option" where
  "write_index_entries handle m [] index_address = Some (0, m)"
| "write_index_entries handle m (f # fs) index_address =
     (case at24c256_write handle m index_address (Some (entry_bytes f))
             (of_nat sizeof_file_index_t) of
        None \<Rightarrow> None
      | Some (ret, m1) \<Rightarrow>
          if ret \<noteq> AT24C256_OK then Some (-1, m1)
          else write_index_entries handle m1 fs (index_address + of_nat sizeof_file_index_t))"

definition write_file_index ::
  "at24c256_handle_t \<Rightarrow> machine \<Rightarrow> file_index_t list \<Rightarrow> (int \<times> machine) option" where
  "write_file_index handle m files =
     (let header =
            \<lparr>magic = CAM_magic, version = 1, file_count = of_nat (length files),
             index_total_size = foldl (\<lambda>total f. total + fsize f) 0 files,
             reserved = replicate 8 0\<rparr>
      in
        (case at24c256_write handle m EEPROM_START_ADDRESS (Some (header_bytes header))
                (of_nat sizeof_index_header_t) of
           None \<Rightarrow> None
         | Some (ret, m1) \<Rightarrow>
             if ret \<noteq> AT24C256_OK then Some (-1, m1)
             else write_index_entries handle m1 files
                    (EEPROM_START_ADDRESS + of_nat sizeof_index_header_t)))"

text \<open>
  \<open>write_files\<close> is \<open>main\<close> of camera_data_write.c from the call of
  \<open>process_camera_parameters\<close> to the exit status (lines 325 to 354), for a given handle;
  \<open>camera_data_write_main\<close> is \<open>main\<close> run without \<open>--erase\<close>.
\<close>

definition write_files ::
  "at24c256_handle_t \<Rightarrow> machine \<Rightarrow> dirent list option \<Rightarrow> (int \<times> machine) option" where
  "write_files handle m dir =
     (case process_camera_parameters handle m ''camera_parameters'' dir of
        None \<Rightarrow> None
      | Some (processed_count, files, m1) \<Rightarrow>
          if processed_count > 0 then
            (case write_file_index handle m1 files of
               None \<Rightarrow> None
             | Some (r, m2) \<Rightarrow>
                 if r \<noteq> 0 then Some (EXIT_FAILURE, snd (at24c256_deinit handle m2))
                 else Some (EXIT_SUCCESS, snd (at24c256_deinit handle m2)))
          else Some (EXIT_FAILURE, snd (at24c256_deinit handle m1)))"

definition camera_data_write_main :: "machine \<Rightarrow> dirent list option \<Rightarrow> (int \<times> machine) option" where
  "camera_data_write_main m dir =
     (case at24c256_init (Some AT24C256_DEFAULT_CONFIG) True m of
        (ret, handle, m0) \<Rightarrow>
          if ret \<noteq> AT24C256_OK then Some (EXIT_FAILURE, m0)
          else write_files handle m0 dir)"

subsection \<open>Reading (camera_data_read.c)\<close>

fun read_index_entries ::
  "at24c256_handle_t \<Rightarrow> machine \<Rightarrow> nat \<Rightarrow> u16 \<Rightarrow> file_index_t list
     \<Rightarrow> int \<times> file_index_t list \<times> machine" where
  "read_index_entries handle m 0 index_address files = (0, files, m)"
| "read_index_entries handle m (Suc n) index_address files =
     (case at24c256_read handle m index_address (Some []) (of_nat sizeof_file_index_t) of
        (ret, buf, m1) \<Rightarrow>
          (case buf of
             Some bytes \<Rightarrow>
               if ret \<noteq> AT24C256_OK then (-1, files, m1)
               else read_index_entries handle m1 n (index_address + of_nat sizeof_file_index_t)
                      (files @ [entry_of_bytes bytes])
           | None \<Rightarrow> (-1, files, m1)))"

text \<open>\<open>read_file_index\<close>: the result code, the entries read (their number is
  \<open>*file_count\<close> on success) and the machine.\<close>

definition read_file_index ::
  "at24c256_handle_t \<Rightarrow> machine \<Rightarrow> int \<times> file_index_t list \<times> machine" where
  "read_file_index handle m =
     (case at24c256_read handle m EEPROM_START_ADDRESS (Some []) (of_nat sizeof_index_header_t) of
        (ret, buf, m1) \<Rightarrow>
          (case buf of
             Some bytes \<Rightarrow>
               if ret \<noteq> AT24C256_OK then (-1, [], m1)
               else
                 (let header = header_of_bytes bytes in
                  if magic header \<noteq> CAM_magic then (-1, [], m1)
                  else if unat (file_count header) > MAX_FILES then (-1, [], m1)
                  else read_index_entries handle m1 (unat (file_count header))
                         (EEPROM_START_ADDRESS + of_nat sizeof_index_header_t) [])
           | None \<Rightarrow> (-1, [], m1)))"

text \<open>
  \<open>read_file_from_eeprom\<close> returns 0 or -1; the model keeps the branch taken (each prints
  its own message), and \<open>read_result\<close> is the integer returned. The host's output files are
  a parameter: what \<open>fopen\<close> and \<open>fwrite\<close> do for a path. A name field with no NUL makes
  \<open>snprintf\<close> read past the array and is \<open>None\<close>.
\<close>

datatype out_result = Out_ok | Out_fopen_fails | Out_fwrite_short

datatype read_outcome =
    Alloc_failed
  | Eeprom_read_failed at24c256_err_t
  | Checksum_failed u8 u8
  | Output_open_failed string
  | Output_write_failed string
  | File_saved string "u8 list"

fun read_result :: "read_outcome \<Rightarrow> int" where
  "read_result (File_saved path bytes) = 0"
| "read_result other = -1"

definition read_file_from_eeprom ::
  "at24c256_handle_t \<Rightarrow> machine \<Rightarrow> file_index_t \<Rightarrow> string \<Rightarrow> (string \<Rightarrow> out_result)
     \<Rightarrow> (read_outcome \<times> machine) option" where
  "read_file_from_eeprom handle m file_info output_dir out_fs =
     (if 0 \<notin> set (filename file_info) then None
      else
        (let output_path =
               take 511 (output_dir @ ''/'' @ map (\<lambda>b. char_of (unat b)) (c_str (filename file_info)))
         in
           if heap_exhausted m then Some (Alloc_failed, m)
           else
             (case at24c256_read handle m (address file_info) (Some []) (fsize file_info) of
                (ret, buf, m1) \<Rightarrow>
                  (case buf of
                     None \<Rightarrow> Some (Eeprom_read_failed ret, m1)
                   | Some buffer \<Rightarrow>
                       if ret \<noteq> AT24C256_OK then Some (Eeprom_read_failed ret, m1)
                       else
                         (let chk = calculate_checksum buffer in
                          if chk \<noteq> checksum file_info
                            then Some (Checksum_failed (checksum file_info) chk, m1)
                          else if out_fs output_path = Out_fopen_fails
                            then Some (Output_open_failed output_path, m1)
                          else if out_fs output_path = Out_fwrite_short
                            then Some (Output_write_failed output_path, m1)
                          else Some (File_saved output_path buffer, m1))))))"

text \<open>The loop of \<open>main\<close> over the entries, counting the files saved.\<close>

fun read_files ::
  "at24c256_handle_t \<Rightarrow> machine \<Rightarrow> file_index_t list \<Rightarrow> string \<Rightarrow> (string \<Rightarrow> out_result) \<Rightarrow> nat
     \<Rightarrow> (nat \<times> machine) option" where
  "read_files handle m [] output_dir out_fs success_count = Some (success_count, m)"
| "read_files handle m (f # fs) output_dir out_fs success_count =
     (case read_file_from_eeprom handle m f output_dir out_fs of
        None \<Rightarrow> None
      | Some (r, m1) \<Rightarrow>
          read_files handle m1 fs output_dir out_fs
            (if read_result r = 0 then success_count + 1 else success_count))"

definition camera_data_read_main ::
  "machine \<Rightarrow> (string \<Rightarrow> out_result) \<Rightarrow> (int \<times> machine) option" where
  "camera_data_read_main m out_fs =
     (case at24c256_init (Some AT24C256_DEFAULT_CONFIG) True m of
        (ret, handle, m0) \<Rightarrow>
          if ret \<noteq> AT24C256_OK then Some (EXIT_FAILURE, m0)
          else
            (case read_file_index handle m0 of
               (r, files, m1) \<Rightarrow>
                 if r \<noteq> 0 then Some (EXIT_FAILURE, snd (at24c256_deinit handle m1))
                 else
                   (case read_files handle m1 files ''out'' out_fs 0 of
                      None \<Rightarrow> None
                    | Some (success_count, m2) \<Rightarrow>
                        Some (if success_count > 0 then EXIT_SUCCESS else EXIT_FAILURE,
                              snd (at24c256_deinit handle m2)))))"

section \<open>Notions used to state the properties\<close>

text \<open>Bytes laid down one after the other from an address on, with no page effect.\<close>

fun store_bytes :: "(u16 \<Rightarrow> u8) \<Rightarrow> u16 \<Rightarrow> u8 list \<Rightarrow> (u16 \<Rightarrow> u8)" where
  "store_bytes cells a [] = cells"
| "store_bytes cells a (b # bs) = store_bytes (cells(a := b)) (a + 1) bs"

text \<open>
  The chunking rule in the words of the specification, on natural numbers: from address
  \<open>a\<close> with \<open>n\<close> bytes remaining, the next chunk starts at \<open>a\<close> and has
  \<open>min n (ps - a mod ps)\<close> bytes. The result lists (start address, size).
\<close>

function chunk_plan :: "nat \<Rightarrow> nat \<Rightarrow> nat \<Rightarrow> (nat \<times> nat) list" where
  "chunk_plan ps a n =
     (if n = 0 \<or> ps = 0 then []
      else (a, min n (ps - a mod ps)) # chunk_plan ps (a + min n (ps - a mod ps))
                                          (n - min n (ps - a mod ps)))"
  by pat_completeness auto
termination
proof (relation "measure (\<lambda>(ps, a, n). n)")
  show "wf (measure (\<lambda>(ps, a, n). n))"
    by simp
next
  fix ps a n :: nat
  assume "\<not> (n = 0 \<or> ps = 0)"
  then have "0 < n" "a mod ps < ps"
    by simp_all
  then have "0 < min n (ps - a mod ps)"
    by simp
  then show "((ps, a + min n (ps - a mod ps), n - min n (ps - a mod ps)), ps, a, n)
             \<in> measure (\<lambda>(ps, a, n). n)"
    using \<open>0 < n\<close> by simp
qed

text \<open>What one chunk of a write leaves in the trace: the transaction (address pointer,
  then the chunk's bytes of the caller's data), then the settle delay.\<close>

definition chunk_events :: "at24c256_dev_s \<Rightarrow> nat \<Rightarrow> u8 list \<Rightarrow> nat \<times> nat \<Rightarrow> event list" where
  "chunk_events dev start data c =
     [I2C_write (addr_hi (of_nat (fst c)) # addr_lo (of_nat (fst c))
                   # take (snd c) (drop (fst c - start) data)) True,
      Usleep (unat (write_delay_ms (config dev)) * 1000)]"

text \<open>The transaction of a chunk on which the channel fails: the same bytes, and no
  settle delay follows, because the loop returns at once.\<close>

definition chunk_refused :: "nat \<Rightarrow> u8 list \<Rightarrow> nat \<times> nat \<Rightarrow> event" where
  "chunk_refused start data c =
     I2C_write (addr_hi (of_nat (fst c)) # addr_lo (of_nat (fst c))
                  # take (snd c) (drop (fst c - start) data)) False"

text \<open>The chunks that reached the device according to a trace: start address and size of
  every completed write transaction with a payload.\<close>

fun tx_chunks :: "event list \<Rightarrow> (nat \<times> nat) list" where
  "tx_chunks [] = []"
| "tx_chunks (I2C_write (hi # lo # b # bs) True # es) =
     (unat (addr_of_bytes hi lo), Suc (length bs)) # tx_chunks es"
| "tx_chunks (e # es) = tx_chunks es"

text \<open>The same data issued as separate writes, piece after piece, each at the address
  where the previous one ended; the first failure ends the sequence.\<close>

fun write_separately ::
  "at24c256_handle_t \<Rightarrow> machine \<Rightarrow> u16 \<Rightarrow> u8 list list \<Rightarrow> (at24c256_err_t \<times> machine) option" where
  "write_separately handle m a [] = Some (AT24C256_OK, m)"
| "write_separately handle m a (piece # pieces) =
     (case at24c256_write handle m a (Some piece) (of_nat (length piece)) of
        None \<Rightarrow> None
      | Some (ret, m1) \<Rightarrow>
          if ret \<noteq> AT24C256_OK then Some (ret, m1)
          else write_separately handle m1 (a + of_nat (length piece)) pieces)"

text \<open>A piece that stays within one page when written at address \<open>a\<close>.\<close>

definition within_one_page :: "nat \<Rightarrow> nat \<Rightarrow> nat \<Rightarrow> bool" where
  "within_one_page ps a n = (a mod ps + n \<le> ps)"

text \<open>The size of the next chunk as the loop of \<open>at24c256_write\<close> computes it
  (\<open>bytes_in_page\<close> after the comparison with \<open>remaining\<close>), and the machine after a
  chunk that was transmitted in full, settle delay included.\<close>

definition chunk_size :: "u16 \<Rightarrow> u16 \<Rightarrow> u16 \<Rightarrow> u16" where
  "chunk_size ps remaining a = (if ps - a mod ps > remaining then remaining else ps - a mod ps)"

definition after_chunk :: "at24c256_dev_s \<Rightarrow> machine \<Rightarrow> u16 \<Rightarrow> u8 list \<Rightarrow> machine" where
  "after_chunk dev m a payload =
     usleep (unat (write_delay_ms (config dev)) * 1000)
       (consume (I2C_write (addr_hi a # addr_lo a # payload) True)
          (m\<lparr>mem := fst (dev_program (dev_page m) (mem m, a) payload),
             ptr := snd (dev_program (dev_page m) (mem m, a) payload)\<rparr>))"

text \<open>The chunking rule applied to a call of \<open>at24c256_write\<close>.\<close>

definition write_plan :: "at24c256_dev_s \<Rightarrow> u16 \<Rightarrow> u16 \<Rightarrow> (nat \<times> nat) list" where
  "write_plan dev a len = chunk_plan (unat (page_size (config dev))) (unat a) (unat len)"

text \<open>A directory entry that \<open>process_camera_parameters\<close> passes over without trying to
  store it: the dot entries, names whose extension is not \<open>.dat\<close>, and what is not a
  regular file.\<close>

definition passed_over :: "dirent \<Rightarrow> bool" where
  "passed_over entry =
     (d_name entry = ''.'' \<or> d_name entry = ''..''
      \<or> extension (d_name entry) \<noteq> Some ''.dat'' \<or> \<not> is_regular entry)"

text \<open>
  Every blob of a listing fails to be stored, starting from machine \<open>m\<close> with \<open>a\<close> the next
  free address: each entry is passed over, or cannot be opened, or exceeds
  \<open>MAX_FILE_SIZE\<close>, or finds the allocator exhausted, or its driver write returns an
  error; the machine left by a failed driver write is the one the next blob meets.
\<close>

fun every_blob_fails :: "at24c256_handle_t \<Rightarrow> dirent list \<Rightarrow> machine \<Rightarrow> u16 \<Rightarrow> bool" where
  "every_blob_fails handle [] m a = True"
| "every_blob_fails handle (entry # rest) m a =
     (if passed_over entry then every_blob_fails handle rest m a
      else
        (case contents entry of
           None \<Rightarrow> every_blob_fails handle rest m a
         | Some buffer \<Rightarrow>
             if length buffer > MAX_FILE_SIZE \<or> heap_exhausted m
               then every_blob_fails handle rest m a
             else
               (case at24c256_write handle m a (Some buffer) (of_nat (length buffer)) of
                  None \<Rightarrow> False
                | Some (ret, m1) \<Rightarrow> ret \<noteq> AT24C256_OK \<and> every_blob_fails handle rest m1 a)))"

text \<open>The first payload address: after the header and the slab of \<open>MAX_FILES\<close> entries.\<close>

definition payload_start :: nat where
  "payload_start = sizeof_index_header_t + MAX_FILES * sizeof_file_index_t"

text \<open>Address \<open>x\<close> is one of the payload bytes of the file an entry describes.\<close>

definition in_payload :: "file_index_t \<Rightarrow> u16 \<Rightarrow> bool" where
  "in_payload f x = (\<exists>i \<in> {..<unat (fsize f)}. x = address f + of_nat i)"

text \<open>The outcome of every file of the loop of \<open>main\<close> in camera_data_read.c, in order
  (the loop itself keeps only the number of successes).\<close>

fun read_outcomes ::
  "at24c256_handle_t \<Rightarrow> machine \<Rightarrow> file_index_t list \<Rightarrow> string \<Rightarrow> (string \<Rightarrow> out_result)
     \<Rightarrow> read_outcome list option" where
  "read_outcomes handle m [] output_dir out_fs = Some []"
| "read_outcomes handle m (f # fs) output_dir out_fs =
     (case read_file_from_eeprom handle m f output_dir out_fs of
        None \<Rightarrow> None
      | Some (r, m1) \<Rightarrow> map_option ((#) r) (read_outcomes handle m1 fs output_dir out_fs))"

section \<open>Concrete inputs\<close>

text \<open>An erased device with pages of 64 bytes behind a channel that never fails, and the
  handle that \<open>at24c256_init\<close> returns for the default configuration.\<close>

definition blank_machine :: machine where
  "blank_machine =
     \<lparr>mem = (\<lambda>a. 0xFF), ptr = 0, dev_page = 64, script = [], trace = [], clock = 0,
      heap_exhausted = False\<rparr>"

definition default_dev :: at24c256_dev_s where
  "default_dev = \<lparr>fd = 3, config = AT24C256_DEFAULT_CONFIG, initialized = True\<rparr>"

definition bytes16 :: "u8 list" where
  "bytes16 = [1, 2, 3, 4, 5, 6, 7, 8, 9, 10, 11, 12, 13, 14, 15, 16]"

text \<open>Host files: one of 32769 bytes, one of 20 bytes (which crosses a page boundary when
  stored at the first payload address) and one of 2 bytes; and a channel whose second
  transfer fails.\<close>

definition big_blob :: dirent where
  "big_blob = \<lparr>d_name = ''big.dat'', is_regular = True, contents = Some (replicate 32769 0)\<rparr>"

definition torn_blob :: dirent where
  "torn_blob = \<lparr>d_name = ''torn.dat'', is_regular = True, contents = Some (replicate 20 7)\<rparr>"

definition small_blob :: dirent where
  "small_blob = \<lparr>d_name = ''b.dat'', is_regular = True, contents = Some [4, 5]\<rparr>"

definition flaky_machine :: machine where
  "flaky_machine = blank_machine\<lparr>script := [True, False]\<rparr>"

text \<open>Two files on the device, \<open>[1, 2, 3]\<close> and \<open>[4, 5]\<close> one after the other from the
  first payload address, their entries, and a host on which every output file can be
  written.\<close>

definition two_files_machine :: machine where
  "two_files_machine =
     blank_machine\<lparr>mem := store_bytes (store_bytes (mem blank_machine) 1136 [1, 2, 3])
                               1139 [4, 5]\<rparr>"

definition file_a :: file_index_t where
  "file_a = \<lparr>filename = name_field ''a.dat'', address = 1136, fsize = 3, checksum = 0\<rparr>"

definition file_b :: file_index_t where
  "file_b = \<lparr>filename = name_field ''b.dat'', address = 1139, fsize = 2, checksum = 1\<rparr>"

definition host_ok :: "string \<Rightarrow> out_result" where
  "host_ok path = Out_ok"

section \<open>The device and the write loop\<close>

lemma addr_bytes: "addr_of_bytes (addr_hi a) (addr_lo a) = a"
proof -
  have m: "(255::u16) = mask 8" by (simp add: mask_eq_exp_minus_1)
  show ?thesis
    unfolding addr_of_bytes_def addr_hi_def addr_lo_def m
    by (rule bit_word_eqI) (auto simp: bit_simps)
qed

lemma of_nat_u16_neq0: "0 < n \<Longrightarrow> n < 65536 \<Longrightarrow> (of_nat n :: u16) \<noteq> 0"
  by (simp add: of_nat_0 unat_of_nat word_arith_nat_defs(1) unat_eq_zero[symmetric] del: unat_eq_zero)

lemma store_bytes_outside:
  "(\<And>j. j < length bs \<Longrightarrow> x \<noteq> a + of_nat j) \<Longrightarrow> store_bytes cells a bs x = cells x"
proof (induction bs arbitrary: cells a)
  case Nil
  then show ?case by simp
next
  case (Cons b bs)
  have "x \<noteq> a" using Cons.prems[of 0] by simp
  moreover have "store_bytes (cells(a := b)) (a + 1) bs x = (cells(a := b)) x"
  proof (rule Cons.IH)
    fix j assume "j < length bs"
    then show "x \<noteq> a + 1 + of_nat j" using Cons.prems[of "Suc j"] by (simp add: add.assoc)
  qed
  ultimately show ?case by simp
qed

lemma store_bytes_nth:
  "length bs \<le> 65536 \<Longrightarrow> i < length bs \<Longrightarrow> store_bytes cells a bs (a + of_nat i) = bs ! i"
proof (induction bs arbitrary: cells a i)
  case Nil
  then show ?case by simp
next
  case (Cons b bs)
  show ?case
  proof (cases i)
    case 0
    have "store_bytes (cells(a := b)) (a + 1) bs a = (cells(a := b)) a"
    proof (rule store_bytes_outside)
      fix j assume j: "j < length bs"
      then have "(of_nat (Suc j) :: u16) \<noteq> 0"
        using Cons.prems(1) by (intro of_nat_u16_neq0) simp_all
      then show "a \<noteq> a + 1 + of_nat j"
        by (simp add: add.assoc)
    qed
    then show ?thesis using 0 by simp
  next
    case (Suc k)
    then have "store_bytes (cells(a := b)) (a + 1) bs (a + 1 + of_nat k) = bs ! k"
      using Cons.prems by (intro Cons.IH) simp_all
    then show ?thesis using Suc by (simp add: add.assoc)
  qed
qed

lemma store_bytes_append:
  "store_bytes cells a (xs @ ys) = store_bytes (store_bytes cells a xs) (a + of_nat (length xs)) ys"
  by (induction xs arbitrary: cells a) (simp_all add: add.assoc)

lemma dev_program_linear:
  "0 < ps \<Longrightarrow> length bs \<le> ps - unat a mod ps
     \<Longrightarrow> fst (dev_program ps (cells, a) bs) = store_bytes cells a bs"
proof (induction bs arbitrary: cells a)
  case Nil
  then show ?case by simp
next
  case (Cons b bs)
  note IH = Cons.IH and prems = Cons.prems
  show ?case
  proof (cases "bs = []")
    case True
    then show ?thesis by simp
  next
    case False
    have len: "Suc (length bs) \<le> ps - unat a mod ps" using prems(2) by simp
    have "2 \<le> ps - unat a mod ps" using len False by (cases bs) simp_all
    then have nz: "(unat a + 1) mod ps \<noteq> 0"
      by (simp add: mod_Suc)
    then have nx: "next_in_page ps a = a + 1" by (simp add: next_in_page_def)
    have "length bs \<le> ps - unat (a + 1) mod ps"
    proof (cases "a + 1 = 0")
      case True
      then show ?thesis using len by simp
    next
      case False
      then have "unat (a + 1) = Suc (unat a)"
        using unatSuc[of a] by (simp add: add.commute)
      then show ?thesis using len by (auto simp: mod_Suc)
    qed
    then have "fst (dev_program ps (cells(a := b), a + 1) bs) = store_bytes (cells(a := b)) (a + 1) bs"
      by (rule IH[OF prems(1)])
    then show ?thesis
      using nx by simp
  qed
qed


declare write_loop.simps [simp del]

lemma unat_chunk_size:
  assumes "0 < remaining" "ps \<noteq> 0"
  shows "unat (chunk_size ps remaining a) = min (unat remaining) (unat ps - unat a mod unat ps)"
proof -
  have "0 < unat ps" using assms(2) by (simp add: unat_gt_0)
  then have "unat (a mod ps) < unat ps" by (simp add: unat_mod)
  then have "a mod ps \<le> ps" by (simp add: word_le_nat_alt)
  then have "unat (ps - a mod ps) = unat ps - unat a mod unat ps"
    by (simp add: unat_sub unat_mod)
  then show ?thesis
    by (simp add: chunk_size_def word_less_nat_alt min_def)
qed

lemma chunk_size_bounds:
  assumes "0 < remaining" "ps \<noteq> 0"
  shows "0 < unat (chunk_size ps remaining a)"
    and "unat (chunk_size ps remaining a) \<le> unat remaining"
    and "unat (chunk_size ps remaining a) \<le> unat ps - unat a mod unat ps"
    and "unat (remaining - chunk_size ps remaining a) = unat remaining - unat (chunk_size ps remaining a)"
proof -
  have "0 < unat ps" using assms(2) by (simp add: unat_gt_0)
  then have lt: "unat a mod unat ps < unat ps" by simp
  have r: "0 < unat remaining" using assms(1) by (simp add: word_less_nat_alt)
  show "0 < unat (chunk_size ps remaining a)"
    using lt r by (simp add: unat_chunk_size[OF assms])
  show le: "unat (chunk_size ps remaining a) \<le> unat remaining"
    by (simp add: unat_chunk_size[OF assms])
  show "unat (chunk_size ps remaining a) \<le> unat ps - unat a mod unat ps"
    by (simp add: unat_chunk_size[OF assms])
  show "unat (remaining - chunk_size ps remaining a) = unat remaining - unat (chunk_size ps remaining a)"
    using le by (simp add: unat_sub word_le_nat_alt)
qed

lemma i2c_write_fail:
  "\<not> outcome m \<Longrightarrow> i2c_write m buf = (-1, consume (I2C_write buf False) m)"
  by (simp add: i2c_write_def)

lemma i2c_write_ok:
  "outcome m \<Longrightarrow> i2c_write m (hi # lo # payload) =
     (int (length payload) + 2,
      consume (I2C_write (hi # lo # payload) True)
        (m\<lparr>mem := fst (dev_program (dev_page m) (mem m, addr_of_bytes hi lo) payload),
           ptr := snd (dev_program (dev_page m) (mem m, addr_of_bytes hi lo) payload)\<rparr>))"
  by (simp add: i2c_write_def split: prod.splits)

lemma write_loop_done: "write_loop dev m 0 a data = Some (AT24C256_OK, m)"
  by (simp add: write_loop.simps)

lemma write_loop_zero_page:
  "0 < remaining \<Longrightarrow> page_size (config dev) = 0 \<Longrightarrow> write_loop dev m remaining a data = None"
  by (simp add: write_loop.simps)

lemma write_loop_unfold:
  assumes "0 < remaining" "page_size (config dev) \<noteq> 0"
  shows "write_loop dev m remaining a data =
     (let b = chunk_size (page_size (config dev)) remaining a in
      if length data < unat b then None
      else
        (case i2c_write m (addr_hi a # addr_lo a # take (unat b) data) of
           (bytes_written, m1) \<Rightarrow>
             if bytes_written \<noteq> int (unat b) + 2 then Some (AT24C256_ERROR_WRITE, m1)
             else write_loop dev (usleep (unat (write_delay_ms (config dev)) * 1000) m1)
                    (remaining - b) (a + b) (drop (unat b) data)))"
  using assms
  by (subst write_loop.simps) (simp add: Let_def chunk_size_def)

lemma write_loop_step:
  assumes "0 < remaining" "page_size (config dev) \<noteq> 0"
  shows "write_loop dev m remaining a data =
     (let b = chunk_size (page_size (config dev)) remaining a in
      if length data < unat b then None
      else if \<not> outcome m
        then Some (AT24C256_ERROR_WRITE,
                   consume (I2C_write (addr_hi a # addr_lo a # take (unat b) data) False) m)
      else write_loop dev (after_chunk dev m a (take (unat b) data))
             (remaining - b) (a + b) (drop (unat b) data))"
proof -
  define b where "b = chunk_size (page_size (config dev)) remaining a"
  show ?thesis
  proof (cases "length data < unat b")
    case True
    then show ?thesis
      by (simp add: write_loop_unfold[OF assms] b_def[symmetric])
  next
    case long: False
    then have len: "length (take (unat b) data) = unat b" by simp
    show ?thesis
    proof (cases "outcome m")
      case True
      have "i2c_write m (addr_hi a # addr_lo a # take (unat b) data) =
              (int (unat b) + 2,
               consume (I2C_write (addr_hi a # addr_lo a # take (unat b) data) True)
                 (m\<lparr>mem := fst (dev_program (dev_page m) (mem m, a) (take (unat b) data)),
                    ptr := snd (dev_program (dev_page m) (mem m, a) (take (unat b) data))\<rparr>))"
        using i2c_write_ok[OF True, of "addr_hi a" "addr_lo a" "take (unat b) data"] len
        by (simp only: addr_bytes)
      then show ?thesis
        using long True
        by (simp add: write_loop_unfold[OF assms] b_def[symmetric] after_chunk_def)
    next
      case False
      have "3 + uint b \<noteq> 0"
        using uint_ge_0[of b] by arith
      then show ?thesis
        using long False
        by (simp add: write_loop_unfold[OF assms] b_def[symmetric] i2c_write_fail)
    qed
  qed
qed

lemma after_chunk_fields:
  "mem (after_chunk dev m a payload) = fst (dev_program (dev_page m) (mem m, a) payload)"
  "dev_page (after_chunk dev m a payload) = dev_page m"
  "heap_exhausted (after_chunk dev m a payload) = heap_exhausted m"
  "script (after_chunk dev m a payload) = tl (script m)"
  "trace (after_chunk dev m a payload) =
     trace m @ [I2C_write (addr_hi a # addr_lo a # payload) True,
                Usleep (unat (write_delay_ms (config dev)) * 1000)]"
  by (simp_all add: after_chunk_def usleep_def consume_def)

lemma write_loop_ok_mem:
  assumes "write_loop dev m remaining a data = Some (AT24C256_OK, m')"
    and "dev_page m = unat (page_size (config dev))"
  shows "mem m' = store_bytes (mem m) a (take (unat remaining) data)
       \<and> dev_page m' = dev_page m \<and> heap_exhausted m' = heap_exhausted m
       \<and> unat remaining \<le> length data"
  using assms
proof (induction "unat remaining" arbitrary: remaining m a data rule: less_induct)
  case less
  show ?case
  proof (cases "remaining = 0")
    case True
    then show ?thesis using less.prems by (simp add: write_loop_done)
  next
    case False
    then have pos: "0 < remaining" by (simp add: word_gt_0)
    have ps: "page_size (config dev) \<noteq> 0"
      using less.prems(1) write_loop_zero_page[OF pos] by fastforce
    define b where "b = chunk_size (page_size (config dev)) remaining a"
    note bb = chunk_size_bounds[OF pos ps, of a, folded b_def]
    from less.prems(1) have long: "\<not> length data < unat b" and ok: "outcome m"
      and rec: "write_loop dev (after_chunk dev m a (take (unat b) data))
                  (remaining - b) (a + b) (drop (unat b) data) = Some (AT24C256_OK, m')"
      by (auto simp: write_loop_step[OF pos ps] Let_def b_def[symmetric] split: if_splits)
    let ?m1 = "after_chunk dev m a (take (unat b) data)"
    have lt: "unat (remaining - b) < unat remaining"
      using bb by simp
    have dp: "dev_page ?m1 = unat (page_size (config dev))"
      using less.prems(2) by (simp add: after_chunk_fields)
    from less.hyps[OF lt rec dp]
    have IH: "mem m' = store_bytes (mem ?m1) (a + b) (take (unat (remaining - b)) (drop (unat b) data))"
      "dev_page m' = dev_page ?m1" "heap_exhausted m' = heap_exhausted ?m1"
      "unat (remaining - b) \<le> length (drop (unat b) data)"
      by simp_all
    have lin: "mem ?m1 = store_bytes (mem m) a (take (unat b) data)"
      unfolding after_chunk_fields less.prems(2)
      using bb long ps by (intro dev_program_linear) (simp_all add: unat_gt_0)
    have split: "take (unat remaining) data
                 = take (unat b) data @ take (unat (remaining - b)) (drop (unat b) data)"
      using bb by (simp add: take_add[symmetric])
    have "store_bytes (mem m) a (take (unat remaining) data)
          = store_bytes (store_bytes (mem m) a (take (unat b) data)) (a + b)
              (take (unat (remaining - b)) (drop (unat b) data))"
      using long by (simp add: split store_bytes_append)
    then show ?thesis
      using IH lin bb long by (simp add: after_chunk_fields)
  qed
qed

lemma outcome_empty: "script m = [] \<Longrightarrow> outcome m"
  by (simp add: outcome_def)

lemma write_loop_total:
  assumes "script m = []" "page_size (config dev) \<noteq> 0" "unat remaining \<le> length data"
  shows "\<exists>m'. write_loop dev m remaining a data = Some (AT24C256_OK, m') \<and> script m' = []"
  using assms
proof (induction "unat remaining" arbitrary: remaining m a data rule: less_induct)
  case less
  show ?case
  proof (cases "remaining = 0")
    case True
    then show ?thesis using less.prems by (simp add: write_loop_done)
  next
    case False
    then have pos: "0 < remaining" by (simp add: word_gt_0)
    note ps = less.prems(2)
    define b where "b = chunk_size (page_size (config dev)) remaining a"
    note bb = chunk_size_bounds[OF pos ps, of a, folded b_def]
    let ?m1 = "after_chunk dev m a (take (unat b) data)"
    have lt: "unat (remaining - b) < unat remaining"
      using bb by simp
    have long: "\<not> length data < unat b" using bb less.prems(3) by simp
    have s1: "script ?m1 = []" using less.prems(1) by (simp add: after_chunk_fields)
    have l1: "unat (remaining - b) \<le> length (drop (unat b) data)"
      using bb less.prems(3) by simp
    from less.hyps[OF lt s1 ps l1, of "a + b"]
    show ?thesis
      using long outcome_empty[OF less.prems(1)]
      by (simp add: write_loop_step[OF pos ps] Let_def b_def[symmetric])
  qed
qed

lemma unat_add_le_u16: "unat (a + b :: u16) \<le> unat a + unat b"
  by (simp add: unat_word_ariths)

lemma unat_of_nat_u16: "n < 65536 \<Longrightarrow> unat (of_nat n :: u16) = n"
  by (simp add: unat_of_nat)

lemma check_address_length_OK:
  "check_address_length handle a len = AT24C256_OK \<longleftrightarrow>
     (\<exists>dev. handle = Some dev \<and> initialized dev
        \<and> unat a + unat len \<le> unat (total_size (config dev)) \<and> len \<noteq> 0)"
  by (auto simp: check_address_length_def split: option.splits)

lemma at24c256_write_OK_D:
  assumes "at24c256_write handle m a (Some data) len = Some (AT24C256_OK, m')"
  shows "\<exists>dev. handle = Some dev \<and> check_address_length handle a len = AT24C256_OK
           \<and> write_loop dev m len a data = Some (AT24C256_OK, m')"
  using assms
  by (auto simp: at24c256_write_def Let_def split: if_splits option.splits)

lemma at24c256_write_checked:
  "check_address_length (Some dev) a len = AT24C256_OK \<Longrightarrow>
     at24c256_write (Some dev) m a (Some data) len = write_loop dev m len a data"
  by (simp add: at24c256_write_def)

lemma i2c_set_pointer:
  "outcome m \<Longrightarrow> i2c_write m [addr_hi a, addr_lo a] =
     (2, consume (I2C_write [addr_hi a, addr_lo a] True) (m\<lparr>ptr := a\<rparr>))"
  using i2c_write_ok[of m "addr_hi a" "addr_lo a" "[]"]
  by (simp add: addr_bytes)

lemma at24c256_read_OK_D:
  assumes "at24c256_read handle m a rbuf len = (AT24C256_OK, out, m2)"
  shows "out = Some (map (\<lambda>i. mem m (a + of_nat i)) [0..<unat len])"
    and "mem m2 = mem m" and "dev_page m2 = dev_page m"
    and "heap_exhausted m2 = heap_exhausted m" and "script m2 = tl (tl (script m))"
    and "check_address_length handle a len = AT24C256_OK"
proof -
  from assms have chk: "check_address_length handle a len = AT24C256_OK" and "rbuf \<noteq> None"
    by (auto simp: at24c256_read_def Let_def split: if_splits)
  show "check_address_length handle a len = AT24C256_OK" by fact
  have ok: "outcome m"
  proof (rule ccontr)
    assume "\<not> outcome m"
    then show False
      using assms chk \<open>rbuf \<noteq> None\<close>
      by (simp add: at24c256_read_def Let_def i2c_write_fail)
  qed
  let ?m1 = "consume (I2C_write [addr_hi a, addr_lo a] True) (m\<lparr>ptr := a\<rparr>)"
  have r: "(case i2c_read ?m1 (unat len) of
             (bytes_read, bytes, m2) \<Rightarrow>
               if bytes_read \<noteq> int (unat len) then (AT24C256_ERROR_READ, rbuf, m2)
               else (AT24C256_OK, Some bytes, m2)) = (AT24C256_OK, out, m2)"
    using assms chk \<open>rbuf \<noteq> None\<close>
    by (simp add: at24c256_read_def Let_def i2c_set_pointer[OF ok])
  have ok1: "outcome ?m1"
  proof (rule ccontr)
    assume "\<not> outcome ?m1"
    then have "i2c_read ?m1 (unat len) = (-1, [], consume (I2C_read (unat len) False) ?m1)"
      by (simp add: i2c_read_def)
    then show False using r uint_ge_0[of len] by simp
  qed
  from r ok1 show "out = Some (map (\<lambda>i. mem m (a + of_nat i)) [0..<unat len])"
    and "mem m2 = mem m" and "dev_page m2 = dev_page m"
    and "heap_exhausted m2 = heap_exhausted m" and "script m2 = tl (tl (script m))"
    by (auto simp: i2c_read_def consume_def)
qed

lemma at24c256_read_total:
  assumes "check_address_length handle a len = AT24C256_OK" "rbuf \<noteq> None" "script m = []"
  shows "\<exists>out m2. at24c256_read handle m a rbuf len = (AT24C256_OK, out, m2)"
  using assms
  by (simp add: at24c256_read_def Let_def i2c_set_pointer outcome_empty i2c_read_def
      outcome_def consume_def)

lemma read_back_stored:
  assumes "length bs \<le> 65536"
  shows "map (\<lambda>i. store_bytes cells a bs (a + of_nat i)) [0..<length bs] = bs"
proof (rule nth_equalityI)
  show "length (map (\<lambda>i. store_bytes cells a bs (a + of_nat i)) [0..<length bs]) = length bs"
    by simp
next
  fix i assume "i < length (map (\<lambda>i. store_bytes cells a bs (a + of_nat i)) [0..<length bs])"
  then have i: "i < length bs" by simp
  then show "map (\<lambda>i. store_bytes cells a bs (a + of_nat i)) [0..<length bs] ! i = bs ! i"
    using store_bytes_nth[OF assms i] by simp
qed

lemma write_read_same_range:
  assumes w: "at24c256_write handle m a (Some data) len = Some (AT24C256_OK, m1)"
    and dp: "\<And>dev. handle = Some dev \<Longrightarrow> dev_page m = unat (page_size (config dev))"
    and r: "at24c256_read handle m1 a rbuf len = (AT24C256_OK, out, m2)"
  shows "out = Some (take (unat len) data)"
proof -
  from at24c256_write_OK_D[OF w] obtain dev where h: "handle = Some dev"
    and wl: "write_loop dev m len a data = Some (AT24C256_OK, m1)" by blast
  from write_loop_ok_mem[OF wl dp[OF h]]
  have mm: "mem m1 = store_bytes (mem m) a (take (unat len) data)" and le: "unat len \<le> length data"
    by simp_all
  have l: "length (take (unat len) data) = unat len" using le by simp
  have "unat len < 65536" using unsigned_less[of len, where 'a=nat] by simp
  then have "length (take (unat len) data) \<le> 65536" by (simp only: l)
  then have "map (\<lambda>i. store_bytes (mem m) a (take (unat len) data) (a + of_nat i))
               [0..<length (take (unat len) data)] = take (unat len) data"
    by (rule read_back_stored)
  then have "map (\<lambda>i. store_bytes (mem m) a (take (unat len) data) (a + of_nat i))
               [0..<unat len] = take (unat len) data"
    by (simp only: l)
  then show ?thesis
    using at24c256_read_OK_D(1)[OF r] by (simp only: mm)
qed

section \<open>Error descriptions\<close>

lemma sint_neg_u32:
  fixes e :: u32
  shows "sint (- e) = (if sint e = - 2147483648 then - 2147483648 else - sint e)"
proof (cases "sint e = - 2147483648")
  case True
  have "sint (- e) = signed_take_bit 31 (- sint e)"
    by (simp add: sint_word_ariths)
  then show ?thesis using True by simp
next
  case False
  have r: "- 2147483648 \<le> sint e" "sint e < 2147483648"
    using sint_ge[of e] sint_lt[of e] by simp_all
  have "sint (- e) = signed_take_bit 31 (- sint e)"
    by (simp add: sint_word_ariths)
  also have "\<dots> = - sint e"
    using r False by (intro signed_take_bit_int_eq_self) simp_all
  finally show ?thesis using False by simp
qed

lemma strerror_cases:
  "at24c256_strerror err =
     (if - 7 \<le> sint err \<and> sint err \<le> 0 then Some (error_strings ! nat (- sint err))
      else Some ''Unknown error'')"
proof -
  have len: "length error_strings = 8" by (simp add: error_strings_def)
  show ?thesis
    using sint_ge[of err]
    by (auto simp: at24c256_strerror_def Let_def sint_neg_u32 len)
qed

text \<open>
  C10. \<open>at24c256_strerror\<close> is total and never indexes outside the table: for each of the
  eight enumerators (values 0 down to -7) it returns the table entry at the negated value,
  which lies inside the table; for every positive value and every value below -7 it returns
  \<open>Unknown error\<close>; and for every value whatsoever it returns a string.
\<close>

theorem strerror_total:
  "(\<forall>e. at24c256_strerror (of_int (err_value e)) = Some (error_strings ! nat (- err_value e))
        \<and> nat (- err_value e) < length error_strings)
   \<and> (\<forall>err. (0 < sint err \<or> sint err < -7) \<longrightarrow> at24c256_strerror err = Some ''Unknown error'')
   \<and> (\<forall>err. \<exists>s. at24c256_strerror err = Some s)"
proof (intro conjI allI impI)
  fix e
  show "at24c256_strerror (of_int (err_value e)) = Some (error_strings ! nat (- err_value e))"
    by (cases e) (simp_all add: strerror_cases)
next
  fix e
  show "nat (- err_value e) < length error_strings"
    by (cases e) (simp_all add: error_strings_def)
next
  fix err :: u32
  assume "0 < sint err \<or> sint err < -7"
  then show "at24c256_strerror err = Some ''Unknown error''"
    by (auto simp: strerror_cases)
next
  fix err
  show "\<exists>s. at24c256_strerror err = Some s"
    by (simp add: strerror_cases)
qed

theorem strerror_total_witness:
  "at24c256_strerror 5 = Some ''Unknown error''
   \<and> at24c256_strerror (- 8) = Some ''Unknown error''
   \<and> at24c256_strerror (- 4) = Some ''Invalid parameter''"
proof -
  have a: "0 < sint (5 :: u32) \<or> sint (5 :: u32) < - 7" by simp
  have b: "0 < sint (- 8 :: u32) \<or> sint (- 8 :: u32) < - 7" by simp
  from strerror_total
  have t1: "\<forall>e. at24c256_strerror (of_int (err_value e))
                 = Some (error_strings ! nat (- err_value e))"
    and t2: "\<forall>err. (0 < sint err \<or> sint err < -7)
                 \<longrightarrow> at24c256_strerror err = Some ''Unknown error''"
    by blast+
  show ?thesis
    using t1[rule_format, of AT24C256_ERROR_PARAM] t2[rule_format, OF a] t2[rule_format, OF b]
    by (simp add: error_strings_def)
qed

section \<open>Rejected calls\<close>

text \<open>
  C6, as the code has it. A data operation (read, write, erase, wait_ready) on a null
  handle, or on a device structure whose \<open>initialized\<close> flag is not set, returns
  \<open>AT24C256_ERROR_INIT\<close> and leaves the machine as it was: no system call is made.
\<close>

theorem invalid_handle_error_init:
  assumes "handle = None \<or> (\<exists>dev. handle = Some dev \<and> \<not> initialized dev)"
  shows "at24c256_read handle m addr rbuf len = (AT24C256_ERROR_INIT, rbuf, m)
       \<and> at24c256_write handle m addr data len = Some (AT24C256_ERROR_INIT, m)
       \<and> at24c256_erase handle m addr len = Some (AT24C256_ERROR_INIT, m)
       \<and> at24c256_wait_ready handle m timeout_ms = (AT24C256_ERROR_INIT, m)"
  using assms
  by (auto simp: at24c256_read_def at24c256_write_def at24c256_erase_def
      at24c256_wait_ready_def check_address_length_def)

theorem invalid_handle_error_init_witness:
  "at24c256_read (Some (default_dev\<lparr>initialized := False\<rparr>)) blank_machine 0 (Some []) 4
     = (AT24C256_ERROR_INIT, Some [], blank_machine)
   \<and> at24c256_write None blank_machine 0 (Some [1, 2, 3, 4]) 4
     = Some (AT24C256_ERROR_INIT, blank_machine)
   \<and> at24c256_erase None blank_machine 0 4 = Some (AT24C256_ERROR_INIT, blank_machine)
   \<and> at24c256_wait_ready None blank_machine 1 = (AT24C256_ERROR_INIT, blank_machine)"
proof -
  have a: "Some (default_dev\<lparr>initialized := False\<rparr>) = None
           \<or> (\<exists>dev. Some (default_dev\<lparr>initialized := False\<rparr>) = Some dev \<and> \<not> initialized dev)"
    by simp
  have b: "(None :: at24c256_handle_t) = None \<or> (\<exists>dev. None = Some dev \<and> \<not> initialized dev)"
    by simp
  show ?thesis
    using invalid_handle_error_init[OF a, of blank_machine 0 "Some []" 4]
      invalid_handle_error_init[OF b, of blank_machine 0 "Some []" 4 "Some [1, 2, 3, 4]" 1]
    by simp
qed

text \<open>The claim as the specification words it (the result is the parameter error) fails:
  a read through a null handle returns the initialisation error.\<close>

theorem invalid_handle_not_param_error:
  "fst (at24c256_read None blank_machine 0 (Some []) 4) \<noteq> AT24C256_ERROR_PARAM
   \<and> map_option fst (at24c256_write None blank_machine 0 (Some [1, 2, 3, 4]) 4)
       \<noteq> Some AT24C256_ERROR_PARAM
   \<and> map_option fst (at24c256_erase None blank_machine 0 4) \<noteq> Some AT24C256_ERROR_PARAM
   \<and> fst (at24c256_wait_ready None blank_machine 1) \<noteq> AT24C256_ERROR_PARAM"
  by (simp add: at24c256_read_def at24c256_write_def at24c256_erase_def
      at24c256_wait_ready_def check_address_length_def)

text \<open>
  C7. On an initialised handle, a read, write or erase whose range ends beyond
  \<open>total_size\<close>, or whose length is zero, returns \<open>AT24C256_ERROR_PARAM\<close> and leaves the
  machine as it was: no system call is made (the trace is unchanged) and the device
  contents are unchanged.
\<close>

theorem invalid_range_error_param:
  assumes "initialized dev"
    and "unat addr + unat len > unat (total_size (config dev)) \<or> len = 0"
  shows "at24c256_read (Some dev) m addr rbuf len = (AT24C256_ERROR_PARAM, rbuf, m)
       \<and> at24c256_write (Some dev) m addr data len = Some (AT24C256_ERROR_PARAM, m)
       \<and> at24c256_erase (Some dev) m addr len = Some (AT24C256_ERROR_PARAM, m)"
  using assms
  by (auto simp: at24c256_read_def at24c256_write_def at24c256_erase_def
      check_address_length_def)

theorem invalid_range_error_param_witness:
  "at24c256_read (Some default_dev) blank_machine 32760 (Some []) 9
     = (AT24C256_ERROR_PARAM, Some [], blank_machine)
   \<and> at24c256_write (Some default_dev) blank_machine 32760 (Some (replicate 9 0)) 9
     = Some (AT24C256_ERROR_PARAM, blank_machine)
   \<and> at24c256_erase (Some default_dev) blank_machine 32760 9
     = Some (AT24C256_ERROR_PARAM, blank_machine)
   \<and> at24c256_write (Some default_dev) blank_machine 100 (Some []) 0
     = Some (AT24C256_ERROR_PARAM, blank_machine)"
proof -
  have i: "initialized default_dev"
    by (simp add: default_dev_def)
  have a: "unat (32760 :: u16) + unat (9 :: u16) > unat (total_size (config default_dev))
           \<or> (9 :: u16) = 0"
    by (simp add: default_dev_def AT24C256_DEFAULT_CONFIG_def)
  have b: "unat (100 :: u16) + unat (0 :: u16) > unat (total_size (config default_dev))
           \<or> (0 :: u16) = 0"
    by simp
  show ?thesis
    using invalid_range_error_param[OF i a, of blank_machine "Some []" "Some (replicate 9 0)"]
      invalid_range_error_param[OF i b, of blank_machine "Some []" "Some []"]
    by simp
qed

section \<open>Write, read and erase\<close>

lemma default_check_60_16:
  "check_address_length (Some default_dev) 60 16 = AT24C256_OK"
  by (simp add: check_address_length_def default_dev_def AT24C256_DEFAULT_CONFIG_def)

lemma default_write_60_16:
  "\<exists>m1. at24c256_write (Some default_dev) blank_machine 60 (Some bytes16) 16
          = Some (AT24C256_OK, m1) \<and> script m1 = []"
proof -
  have "\<exists>m'. write_loop default_dev blank_machine 16 60 bytes16 = Some (AT24C256_OK, m')
          \<and> script m' = []"
    by (rule write_loop_total)
       (simp_all add: blank_machine_def default_dev_def AT24C256_DEFAULT_CONFIG_def bytes16_def)
  then show ?thesis
    by (simp add: at24c256_write_checked[OF default_check_60_16])
qed

text \<open>
  C1. A write that returns \<open>AT24C256_OK\<close>, on a device whose page length is the
  configured one, followed by a read of the same range: the read succeeds whenever the channel
  does not fail and a buffer is given, and a read that returns \<open>AT24C256_OK\<close> delivers
  exactly the \<open>len\<close> bytes that were written.
\<close>

theorem write_then_read_roundtrip:
  assumes "at24c256_write (Some dev) m addr (Some data) len = Some (AT24C256_OK, m1)"
    and "dev_page m = unat (page_size (config dev))"
  shows "(rbuf \<noteq> None \<and> script m1 = []
            \<longrightarrow> fst (at24c256_read (Some dev) m1 addr rbuf len) = AT24C256_OK)
       \<and> (fst (at24c256_read (Some dev) m1 addr rbuf len) = AT24C256_OK
            \<longrightarrow> fst (snd (at24c256_read (Some dev) m1 addr rbuf len))
                  = Some (take (unat len) data))"
proof (intro conjI impI)
  assume a: "rbuf \<noteq> None \<and> script m1 = []"
  from at24c256_write_OK_D[OF assms(1)]
  have "check_address_length (Some dev) addr len = AT24C256_OK" by blast
  from at24c256_read_total[OF this, of rbuf m1] a
  show "fst (at24c256_read (Some dev) m1 addr rbuf len) = AT24C256_OK"
    by auto
next
  assume "fst (at24c256_read (Some dev) m1 addr rbuf len) = AT24C256_OK"
  then obtain out m2 where r: "at24c256_read (Some dev) m1 addr rbuf len = (AT24C256_OK, out, m2)"
    by (metis prod.collapse)
  have "out = Some (take (unat len) data)"
    by (rule write_read_same_range[OF assms(1) _ r]) (simp add: assms(2))
  then show "fst (snd (at24c256_read (Some dev) m1 addr rbuf len)) = Some (take (unat len) data)"
    by (simp add: r)
qed

theorem write_then_read_roundtrip_witness:
  "map_option fst (at24c256_write (Some default_dev) blank_machine 60 (Some bytes16) 16)
     = Some AT24C256_OK
   \<and> dev_page blank_machine = unat (page_size (config default_dev))
   \<and> fst (at24c256_read (Some default_dev)
           (snd (the (at24c256_write (Some default_dev) blank_machine 60 (Some bytes16) 16)))
           60 (Some []) 16) = AT24C256_OK
   \<and> fst (snd (at24c256_read (Some default_dev)
           (snd (the (at24c256_write (Some default_dev) blank_machine 60 (Some bytes16) 16)))
           60 (Some []) 16)) = Some bytes16"
proof -
  from default_write_60_16 obtain m1
    where w: "at24c256_write (Some default_dev) blank_machine 60 (Some bytes16) 16
                = Some (AT24C256_OK, m1)"
      and s: "script m1 = []" by blast
  have dp: "dev_page blank_machine = unat (page_size (config default_dev))"
    by (simp add: blank_machine_def default_dev_def AT24C256_DEFAULT_CONFIG_def)
  have t: "take (unat (16 :: u16)) bytes16 = bytes16"
    by (simp add: bytes16_def)
  show ?thesis
    using write_then_read_roundtrip[OF w dp, of "Some []"] w dp s t by auto
qed





section \<open>The chunks of a write\<close>

declare chunk_plan.simps [simp del]

lemma chunk_plan_empty: "chunk_plan ps a 0 = []"
  by (simp add: chunk_plan.simps)

lemma chunk_plan_step:
  "0 < n \<Longrightarrow> 0 < ps \<Longrightarrow>
     chunk_plan ps a n =
       (a, min n (ps - a mod ps)) # chunk_plan ps (a + min n (ps - a mod ps)) (n - min n (ps - a mod ps))"
  by (subst chunk_plan.simps) simp

lemma chunk_size_props:
  "(c, k) \<in> set (chunk_plan ps a n) \<Longrightarrow>
     a \<le> c \<and> 0 < k \<and> k = min (a + n - c) (ps - c mod ps) \<and> c + k \<le> a + n"
proof (induction ps a n rule: chunk_plan.induct)
  case (1 ps a n)
  show ?case
  proof (cases "n = 0 \<or> ps = 0")
    case True
    then show ?thesis using "1.prems" by (simp add: chunk_plan.simps)
  next
    case False
    then have n: "0 < n" and ps: "0 < ps" by simp_all
    define k0 where "k0 = min n (ps - a mod ps)"
    have k0: "0 < k0" "k0 \<le> n" using n ps by (simp_all add: k0_def)
    from "1.prems" have "(c, k) = (a, k0) \<or> (c, k) \<in> set (chunk_plan ps (a + k0) (n - k0))"
      by (simp add: chunk_plan_step[OF n ps] k0_def)
    then show ?thesis
    proof
      assume "(c, k) = (a, k0)"
      then show ?thesis using k0 by (simp add: k0_def)
    next
      assume "(c, k) \<in> set (chunk_plan ps (a + k0) (n - k0))"
      from "1.IH"[OF False this[unfolded k0_def]]
      show ?thesis using k0 ps by (simp add: k0_def[symmetric])
    qed
  qed
qed

lemma chunk_plan_cover:
  "0 < ps \<Longrightarrow> concat (map (\<lambda>(a, k). [a..<a + k]) (chunk_plan ps a n)) = [a..<a + n]"
proof (induction ps a n rule: chunk_plan.induct)
  case (1 ps a n)
  show ?case
  proof (cases "n = 0")
    case True
    then show ?thesis by (simp add: chunk_plan_empty)
  next
    case False
    then have n: "0 < n" by simp
    note ps = "1.prems"
    define k0 where "k0 = min n (ps - a mod ps)"
    have k0: "0 < k0" "k0 \<le> n" using n ps by (simp_all add: k0_def)
    have "concat (map (\<lambda>(a, k). [a..<a + k]) (chunk_plan ps (a + k0) (n - k0)))
            = [a + k0..<a + k0 + (n - k0)]"
      using "1.IH"[OF _ ps] False ps by (simp add: k0_def)
    moreover have "[a..<a + n] = [a..<a + k0] @ [a + k0..<a + k0 + (n - k0)]"
      using k0 upt_add_eq_append[of a "a + k0" "n - k0"] by simp
    ultimately show ?thesis
      by (simp add: chunk_plan_step[OF n ps] k0_def[symmetric])
  qed
qed

lemma chunk_plan_sorted: "sorted_wrt (<) (map fst (chunk_plan ps a n))"
proof (induction ps a n rule: chunk_plan.induct)
  case (1 ps a n)
  show ?case
  proof (cases "n = 0 \<or> ps = 0")
    case True
    then show ?thesis by (simp add: chunk_plan.simps)
  next
    case False
    then have n: "0 < n" and ps: "0 < ps" by simp_all
    define k0 where "k0 = min n (ps - a mod ps)"
    have k0: "0 < k0" "k0 \<le> n" using n ps by (simp_all add: k0_def)
    have "\<forall>c \<in> set (map fst (chunk_plan ps (a + k0) (n - k0))). a < c"
      using chunk_size_props[of _ _ ps "a + k0" "n - k0"] k0 by fastforce
    then show ?thesis
      using "1.IH"[OF False] by (simp add: chunk_plan_step[OF n ps] k0_def[symmetric])
  qed
qed

lemma chunk_plan_within:
  "(c, k) \<in> set (chunk_plan ps a n) \<Longrightarrow> 0 < ps \<Longrightarrow> within_one_page ps c k"
  using chunk_size_props[of c k ps a n]
  by (auto simp: within_one_page_def min_def split: if_splits)

lemma write_loop_ok_trace:
  assumes "write_loop dev m remaining a data = Some (AT24C256_OK, m')"
    and "unat a + unat remaining \<le> 65536"
    and "start \<le> unat a" and "data = drop (unat a - start) data0"
  shows "trace m' = trace m @ concat (map (chunk_events dev start data0)
           (chunk_plan (unat (page_size (config dev))) (unat a) (unat remaining)))"
  using assms
proof (induction "unat remaining" arbitrary: remaining m a data rule: less_induct)
  case less
  show ?case
  proof (cases "remaining = 0")
    case True
    then show ?thesis using less.prems by (simp add: write_loop_done chunk_plan_empty)
  next
    case False
    then have pos: "0 < remaining" by (simp add: word_gt_0)
    have ps: "page_size (config dev) \<noteq> 0"
      using less.prems(1) write_loop_zero_page[OF pos] by fastforce
    define b where "b = chunk_size (page_size (config dev)) remaining a"
    note bb = chunk_size_bounds[OF pos ps, of a, folded b_def]
    have ub: "unat b = min (unat remaining) (unat (page_size (config dev)) - unat a mod unat (page_size (config dev)))"
      by (simp add: b_def unat_chunk_size[OF pos ps])
    from less.prems(1) have long: "\<not> length data < unat b" and ok: "outcome m"
      and rec: "write_loop dev (after_chunk dev m a (take (unat b) data))
                  (remaining - b) (a + b) (drop (unat b) data) = Some (AT24C256_OK, m')"
      by (auto simp: write_loop_step[OF pos ps] Let_def b_def[symmetric] split: if_splits)
    let ?m1 = "after_chunk dev m a (take (unat b) data)"
    let ?ps = "unat (page_size (config dev))"
    have lt: "unat (remaining - b) < unat remaining"
      using bb by simp
    have n0: "0 < unat remaining" "0 < ?ps"
      using pos ps by (simp_all add: word_less_nat_alt unat_gt_0)
    have plan: "chunk_plan ?ps (unat a) (unat remaining)
                = (unat a, unat b) # chunk_plan ?ps (unat a + unat b) (unat (remaining - b))"
      using chunk_plan_step[OF n0, of "unat a"] bb by (simp add: ub)
    have first: "chunk_events dev start data0 (unat a, unat b)
                 = [I2C_write (addr_hi a # addr_lo a # take (unat b) data) True,
                    Usleep (unat (write_delay_ms (config dev)) * 1000)]"
      by (simp add: chunk_events_def less.prems(4))
    have rest: "trace m' = trace ?m1 @ concat (map (chunk_events dev start data0)
                  (chunk_plan ?ps (unat a + unat b) (unat (remaining - b))))"
    proof (cases "remaining - b = 0")
      case True
      then show ?thesis using rec by (simp add: write_loop_done chunk_plan_empty)
    next
      case False
      then have "0 < unat (remaining - b)" by (simp add: unat_gt_0)
      then have "unat a + unat b < 65536"
        using less.prems(2) bb by simp
      then have ua: "unat (a + b) = unat a + unat b"
        by (simp add: unat_add_lem[THEN iffD1])
      have "trace m' = trace ?m1 @ concat (map (chunk_events dev start data0)
              (chunk_plan ?ps (unat (a + b)) (unat (remaining - b))))"
      proof (rule less.hyps[OF lt rec])
        show "unat (a + b) + unat (remaining - b) \<le> 65536"
          using less.prems(2) bb by (simp add: ua)
        show "start \<le> unat (a + b)" using less.prems(3) by (simp add: ua)
        show "drop (unat b) data = drop (unat (a + b) - start) data0"
          using less.prems(3) by (simp add: less.prems(4) ua add.commute)
      qed
      then show ?thesis by (simp only: ua)
    qed
    show ?thesis
      by (simp add: plan first rest after_chunk_fields)
  qed
qed

lemma write_loop_fail_trace:
  assumes "write_loop dev m remaining a data = Some (r, m')" and "r \<noteq> AT24C256_OK"
    and "unat a + unat remaining \<le> 65536"
    and "start \<le> unat a" and "data = drop (unat a - start) data0"
  shows "r = AT24C256_ERROR_WRITE
         \<and> (\<exists>n < length (chunk_plan (unat (page_size (config dev))) (unat a) (unat remaining)).
              trace m' = trace m
                @ concat (map (chunk_events dev start data0)
                    (take n (chunk_plan (unat (page_size (config dev))) (unat a) (unat remaining))))
                @ [chunk_refused start data0
                     (chunk_plan (unat (page_size (config dev))) (unat a) (unat remaining) ! n)])"
  using assms
proof (induction "unat remaining" arbitrary: remaining m a data rule: less_induct)
  case less
  show ?case
  proof (cases "remaining = 0")
    case True
    then show ?thesis using less.prems by (simp add: write_loop_done)
  next
    case False
    then have pos: "0 < remaining" by (simp add: word_gt_0)
    have ps: "page_size (config dev) \<noteq> 0"
      using less.prems(1) write_loop_zero_page[OF pos] by fastforce
    define b where "b = chunk_size (page_size (config dev)) remaining a"
    note bb = chunk_size_bounds[OF pos ps, of a, folded b_def]
    have ub: "unat b = min (unat remaining) (unat (page_size (config dev)) - unat a mod unat (page_size (config dev)))"
      by (simp add: b_def unat_chunk_size[OF pos ps])
    let ?m1 = "after_chunk dev m a (take (unat b) data)"
    let ?ps = "unat (page_size (config dev))"
    let ?plan = "chunk_plan ?ps (unat a) (unat remaining)"
    let ?rest = "chunk_plan ?ps (unat a + unat b) (unat (remaining - b))"
    from less.prems(1) have long: "\<not> length data < unat b"
      by (auto simp: write_loop_step[OF pos ps] Let_def b_def[symmetric] split: if_splits)
    have n0: "0 < unat remaining" "0 < ?ps"
      using pos ps by (simp_all add: word_less_nat_alt unat_gt_0)
    have plan: "?plan = (unat a, unat b) # ?rest"
      using chunk_plan_step[OF n0, of "unat a"] bb by (simp add: ub)
    show ?thesis
    proof (cases "outcome m")
      case False
      then have r: "r = AT24C256_ERROR_WRITE"
        and "trace m' = trace m @ [I2C_write (addr_hi a # addr_lo a # take (unat b) data) False]"
        using less.prems(1) long
        by (auto simp: write_loop_step[OF pos ps] Let_def b_def[symmetric] consume_def)
      then have "trace m' = trace m @ concat (map (chunk_events dev start data0) (take 0 ?plan))
                   @ [chunk_refused start data0 (?plan ! 0)]"
        by (simp add: plan chunk_refused_def less.prems(5))
      moreover have "0 < length ?plan" by (simp add: plan)
      ultimately show ?thesis using r by blast
    next
      case True
      then have rec: "write_loop dev ?m1 (remaining - b) (a + b) (drop (unat b) data) = Some (r, m')"
        using less.prems(1) long
        by (auto simp: write_loop_step[OF pos ps] Let_def b_def[symmetric])
      have lt: "unat (remaining - b) < unat remaining"
        using bb by simp
      have ne: "remaining - b \<noteq> 0"
        using rec less.prems(2) by (auto simp: write_loop_done)
      then have "0 < unat (remaining - b)" by (simp add: unat_gt_0)
      then have "unat a + unat b < 65536"
        using less.prems(3) bb by simp
      then have ua: "unat (a + b) = unat a + unat b"
        by (simp add: unat_add_lem[THEN iffD1])
      have "r = AT24C256_ERROR_WRITE
         \<and> (\<exists>n < length (chunk_plan ?ps (unat (a + b)) (unat (remaining - b))).
              trace m' = trace ?m1
                @ concat (map (chunk_events dev start data0)
                    (take n (chunk_plan ?ps (unat (a + b)) (unat (remaining - b)))))
                @ [chunk_refused start data0
                     (chunk_plan ?ps (unat (a + b)) (unat (remaining - b)) ! n)])"
      proof (rule less.hyps[OF lt rec less.prems(2)])
        show "unat (a + b) + unat (remaining - b) \<le> 65536"
          using less.prems(3) bb by (simp add: ua)
        show "start \<le> unat (a + b)" using less.prems(4) by (simp add: ua)
        show "drop (unat b) data = drop (unat (a + b) - start) data0"
          using less.prems(4) by (simp add: less.prems(5) ua add.commute)
      qed
      then obtain n where r: "r = AT24C256_ERROR_WRITE" and n: "n < length ?rest"
        and e: "trace m' = trace ?m1 @ concat (map (chunk_events dev start data0) (take n ?rest))
                  @ [chunk_refused start data0 (?rest ! n)]"
        by (auto simp only: ua)
      have first: "chunk_events dev start data0 (unat a, unat b)
                 = [I2C_write (addr_hi a # addr_lo a # take (unat b) data) True,
                    Usleep (unat (write_delay_ms (config dev)) * 1000)]"
        by (simp add: chunk_events_def less.prems(5))
      have "trace m' = trace m @ concat (map (chunk_events dev start data0) (take (Suc n) ?plan))
              @ [chunk_refused start data0 (?plan ! Suc n)]"
        by (simp add: e plan first after_chunk_fields)
      moreover have "Suc n < length ?plan" using n by (simp add: plan)
      ultimately show ?thesis using r by blast
    qed
  qed
qed

lemma tx_chunks_append: "tx_chunks (xs @ ys) = tx_chunks xs @ tx_chunks ys"
  by (induction xs rule: tx_chunks.induct) simp_all

lemma tx_chunks_chunk_events:
  assumes "0 < k" "c < 65536" "k \<le> length (drop (c - start) data0)"
  shows "tx_chunks (chunk_events dev start data0 (c, k)) = [(c, k)]"
proof -
  from assms obtain x xs where t: "take k (drop (c - start) data0) = x # xs"
    by (cases "take k (drop (c - start) data0)") auto
  then have "length (x # xs) = k"
    using assms(3) by (metis length_take min.absorb2)
  then have "Suc (length xs) = k" by simp
  then show ?thesis
    using assms(2) by (simp add: chunk_events_def t addr_bytes unat_of_nat_u16)
qed

lemma write_loop_tx_chunks:
  assumes "write_loop dev m remaining a data = Some (r, m')"
    and "unat a + unat remaining \<le> 65536"
  shows "\<exists>n evs. trace m' = trace m @ evs
           \<and> tx_chunks evs = take n (chunk_plan (unat (page_size (config dev))) (unat a) (unat remaining))"
  using assms
proof (induction "unat remaining" arbitrary: remaining m a data rule: less_induct)
  case less
  show ?case
  proof (cases "remaining = 0")
    case True
    then have "trace m' = trace m @ []" using less.prems by (simp add: write_loop_done)
    moreover have "tx_chunks [] = take 0 (chunk_plan (unat (page_size (config dev))) (unat a) (unat remaining))"
      by simp
    ultimately show ?thesis by blast
  next
    case False
    then have pos: "0 < remaining" by (simp add: word_gt_0)
    have ps: "page_size (config dev) \<noteq> 0"
      using less.prems(1) write_loop_zero_page[OF pos] by fastforce
    define b where "b = chunk_size (page_size (config dev)) remaining a"
    note bb = chunk_size_bounds[OF pos ps, of a, folded b_def]
    have ub: "unat b = min (unat remaining) (unat (page_size (config dev)) - unat a mod unat (page_size (config dev)))"
      by (simp add: b_def unat_chunk_size[OF pos ps])
    let ?m1 = "after_chunk dev m a (take (unat b) data)"
    let ?ps = "unat (page_size (config dev))"
    let ?plan = "chunk_plan ?ps (unat a) (unat remaining)"
    from less.prems(1) have long: "\<not> length data < unat b"
      by (auto simp: write_loop_step[OF pos ps] Let_def b_def[symmetric] split: if_splits)
    have n0: "0 < unat remaining" "0 < ?ps"
      using pos ps by (simp_all add: word_less_nat_alt unat_gt_0)
    have plan: "?plan = (unat a, unat b) # chunk_plan ?ps (unat a + unat b) (unat (remaining - b))"
      using chunk_plan_step[OF n0, of "unat a"] bb by (simp add: ub)
    show ?thesis
    proof (cases "outcome m")
      case False
      then have "trace m' = trace m @ [I2C_write (addr_hi a # addr_lo a # take (unat b) data) False]"
        using less.prems(1) long
        by (auto simp: write_loop_step[OF pos ps] Let_def b_def[symmetric] consume_def)
      moreover have "tx_chunks [I2C_write (addr_hi a # addr_lo a # take (unat b) data) False]
                     = take 0 ?plan"
        by (cases "take (unat b) data") simp_all
      ultimately show ?thesis by blast
    next
      case True
      then have rec: "write_loop dev ?m1 (remaining - b) (a + b) (drop (unat b) data) = Some (r, m')"
        using less.prems(1) long
        by (auto simp: write_loop_step[OF pos ps] Let_def b_def[symmetric])
      have lt: "unat (remaining - b) < unat remaining"
        using bb by simp
      have "\<exists>n evs. trace m' = trace ?m1 @ evs
              \<and> tx_chunks evs = take n (chunk_plan ?ps (unat a + unat b) (unat (remaining - b)))"
      proof (cases "remaining - b = 0")
        case True
        then have "trace m' = trace ?m1 @ []" using rec by (simp add: write_loop_done)
        moreover have "tx_chunks [] = take 0 (chunk_plan ?ps (unat a + unat b) (unat (remaining - b)))"
          by simp
        ultimately show ?thesis by blast
      next
        case False
        then have "0 < unat (remaining - b)" by (simp add: unat_gt_0)
        then have "unat a + unat b < 65536"
          using less.prems(2) bb by simp
        then have ua: "unat (a + b) = unat a + unat b"
          by (simp add: unat_add_lem[THEN iffD1])
        have "unat (a + b) + unat (remaining - b) \<le> 65536"
          using less.prems(2) bb by (simp add: ua)
        from less.hyps[OF lt rec this] show ?thesis by (simp only: ua)
      qed
      then obtain n evs where e: "trace m' = trace ?m1 @ evs"
        and t: "tx_chunks evs = take n (chunk_plan ?ps (unat a + unat b) (unat (remaining - b)))"
        by blast
      have a16: "unat a < 65536" using unsigned_less[of a, where 'a=nat] by simp
      have first: "tx_chunks (chunk_events dev (unat a) data (unat a, unat b)) = [(unat a, unat b)]"
        using bb long a16 by (intro tx_chunks_chunk_events) simp_all
      have ce: "chunk_events dev (unat a) data (unat a, unat b)
                 = [I2C_write (addr_hi a # addr_lo a # take (unat b) data) True,
                    Usleep (unat (write_delay_ms (config dev)) * 1000)]"
        by (simp add: chunk_events_def)
      have "trace m' = trace m @ (chunk_events dev (unat a) data (unat a, unat b) @ evs)"
        by (simp add: e after_chunk_fields ce)
      moreover have "tx_chunks (chunk_events dev (unat a) data (unat a, unat b) @ evs)
                     = take (Suc n) ?plan"
        by (simp only: tx_chunks_append first t plan take_Suc_Cons append_Cons append_Nil)
      ultimately show ?thesis by blast
    qed
  qed
qed

lemma at24c256_write_cases:
  "at24c256_write (Some dev) m a (Some data) len = Some (r, m') \<Longrightarrow>
     (r \<noteq> AT24C256_OK \<and> m' = m \<and> check_address_length (Some dev) a len \<noteq> AT24C256_OK)
     \<or> (check_address_length (Some dev) a len = AT24C256_OK
          \<and> write_loop dev m len a data = Some (r, m'))"
  by (auto simp: at24c256_write_def Let_def split: if_splits)

text \<open>
  C3. Take a call of \<open>at24c256_write\<close> with a valid range, on a handle whose declared size
  fits the 16-bit address space (at most 65536 bytes; larger devices are outside the scope
  of the specification), and suppose the call returns. The chunk plan of the call is the
  sequence of chunks the rule determines: every chunk has a positive size, equal to the
  minimum of the bytes remaining and \<open>page_size - (start mod page_size)\<close>, it stays within
  the page of its start address and within the requested range; the start addresses increase
  strictly; and the chunks laid end to end are the requested range, with no gap and no
  overlap. What the call transmits is exactly this plan: if it returns \<open>AT24C256_OK\<close>, the
  trace grows by the transactions of all the chunks in order, each followed by its settle
  delay before the next begins, and by nothing else; otherwise it returns
  \<open>AT24C256_ERROR_WRITE\<close> and the trace grows by the transactions and settle delays of
  the first \<open>n\<close> chunks of the plan followed by the refused transaction of chunk \<open>n\<close>.
  Read back from the trace, the chunks that reached the device are an initial part of the
  plan.
\<close>

theorem write_chunk_sequence:
  assumes "check_address_length (Some dev) addr len = AT24C256_OK"
    and "unat (total_size (config dev)) \<le> 65536"
    and "at24c256_write (Some dev) m addr (Some data) len = Some (r, m')"
  shows "((r = AT24C256_OK
           \<and> trace m' = trace m @ concat (map (chunk_events dev (unat addr) data)
                                          (write_plan dev addr len)))
          \<or> (r = AT24C256_ERROR_WRITE
           \<and> (\<exists>n < length (write_plan dev addr len).
                 trace m' = trace m
                   @ concat (map (chunk_events dev (unat addr) data)
                                 (take n (write_plan dev addr len)))
                   @ [chunk_refused (unat addr) data (write_plan dev addr len ! n)])))
       \<and> (\<exists>n evs. trace m' = trace m @ evs \<and> tx_chunks evs = take n (write_plan dev addr len))
       \<and> concat (map (\<lambda>(c, k). [c..<c + k]) (write_plan dev addr len))
           = [unat addr..<unat addr + unat len]
       \<and> (\<forall>(c, k) \<in> set (write_plan dev addr len).
             0 < k \<and> k = min (unat addr + unat len - c)
                            (unat (page_size (config dev)) - c mod unat (page_size (config dev)))
             \<and> within_one_page (unat (page_size (config dev))) c k
             \<and> unat addr \<le> c \<and> c + k \<le> unat addr + unat len)
       \<and> sorted_wrt (<) (map fst (write_plan dev addr len))"
proof -
  from assms(1) have range: "unat addr + unat len \<le> unat (total_size (config dev))"
    and len: "len \<noteq> 0"
    by (simp_all add: check_address_length_OK)
  from range assms(2) have b: "unat addr + unat len \<le> 65536" by simp
  from at24c256_write_cases[OF assms(3)] assms(1)
  have wl: "write_loop dev m len addr data = Some (r, m')" by simp
  have "0 < len" using len by (simp add: word_gt_0)
  then have ps: "page_size (config dev) \<noteq> 0"
    using wl write_loop_zero_page[of len dev m addr data] by fastforce
  then have ps0: "0 < unat (page_size (config dev))" by (simp add: unat_gt_0)
  have tr: "(r = AT24C256_OK
           \<and> trace m' = trace m @ concat (map (chunk_events dev (unat addr) data)
                                          (write_plan dev addr len)))
          \<or> (r = AT24C256_ERROR_WRITE
           \<and> (\<exists>n < length (write_plan dev addr len).
                 trace m' = trace m
                   @ concat (map (chunk_events dev (unat addr) data)
                                 (take n (write_plan dev addr len)))
                   @ [chunk_refused (unat addr) data (write_plan dev addr len ! n)]))"
  proof (cases "r = AT24C256_OK")
    case True
    then show ?thesis
      using write_loop_ok_trace[OF wl[unfolded True] b, of "unat addr" data]
      by (simp add: write_plan_def)
  next
    case False
    then show ?thesis
      using write_loop_fail_trace[OF wl False b, of "unat addr" data]
      by (simp add: write_plan_def)
  qed
  have tx: "\<exists>n evs. trace m' = trace m @ evs \<and> tx_chunks evs = take n (write_plan dev addr len)"
    using write_loop_tx_chunks[OF wl b] by (simp add: write_plan_def)
  have cover: "concat (map (\<lambda>(c, k). [c..<c + k]) (write_plan dev addr len))
                 = [unat addr..<unat addr + unat len]"
    using ps0 by (simp add: write_plan_def chunk_plan_cover)
  have each: "\<forall>(c, k) \<in> set (write_plan dev addr len).
             0 < k \<and> k = min (unat addr + unat len - c)
                            (unat (page_size (config dev)) - c mod unat (page_size (config dev)))
             \<and> within_one_page (unat (page_size (config dev))) c k
             \<and> unat addr \<le> c \<and> c + k \<le> unat addr + unat len"
  proof (clarify, intro conjI)
    fix c k
    assume in_plan: "(c, k) \<in> set (write_plan dev addr len)"
    from chunk_size_props[OF in_plan[unfolded write_plan_def]] ps0
    show "0 < k" and "k = min (unat addr + unat len - c)
             (unat (page_size (config dev)) - c mod unat (page_size (config dev)))"
      and "unat addr \<le> c" and "c + k \<le> unat addr + unat len"
      by simp_all
    show "within_one_page (unat (page_size (config dev))) c k"
      using chunk_plan_within[OF in_plan[unfolded write_plan_def] ps0] .
  qed
  have inc: "sorted_wrt (<) (map fst (write_plan dev addr len))"
    by (simp add: write_plan_def chunk_plan_sorted)
  from tr tx cover each inc show ?thesis by (intro conjI)
qed

lemma blank_fields:
  "script blank_machine = []" "trace blank_machine = []" "dev_page blank_machine = 64"
  "heap_exhausted blank_machine = False" "outcome blank_machine"
  by (simp_all add: blank_machine_def outcome_def)

lemma default_fields:
  "page_size (config default_dev) = 64" "unat (total_size (config default_dev)) = 32768"
  "initialized default_dev" "write_delay_ms (config default_dev) = 5"
  by (simp_all add: default_dev_def AT24C256_DEFAULT_CONFIG_def)

lemma plan_60_16: "write_plan default_dev 60 16 = [(60, 4), (64, 12)]"
  by (simp add: write_plan_def default_fields chunk_plan.simps)

lemma torn_write:
  "at24c256_write (Some default_dev) flaky_machine 1136 (Some (replicate 20 7)) 20
     = Some (AT24C256_ERROR_WRITE,
         consume (I2C_write (addr_hi 1152 # addr_lo 1152 # replicate 4 7) False)
           (after_chunk default_dev flaky_machine 1136 (replicate 16 7)))"
proof -
  have chk: "check_address_length (Some default_dev) 1136 20 = AT24C256_OK"
    by (simp add: check_address_length_OK default_fields)
  have c1: "chunk_size 64 20 (1136 :: u16) = 16" by (simp add: chunk_size_def)
  have c2: "chunk_size 64 4 (1152 :: u16) = 4" by (simp add: chunk_size_def)
  have o1: "outcome flaky_machine"
    by (simp add: outcome_def flaky_machine_def)
  have o2: "\<not> outcome (after_chunk default_dev flaky_machine 1136 (replicate 16 7))"
    by (simp add: outcome_def after_chunk_fields flaky_machine_def)
  have "write_loop default_dev flaky_machine 20 1136 (replicate 20 7)
          = write_loop default_dev (after_chunk default_dev flaky_machine 1136 (replicate 16 7))
              4 1152 (replicate 4 7)"
    by (subst write_loop_step) (simp_all add: default_fields c1 o1)
  also have "\<dots> = Some (AT24C256_ERROR_WRITE,
         consume (I2C_write (addr_hi 1152 # addr_lo 1152 # replicate 4 7) False)
           (after_chunk default_dev flaky_machine 1136 (replicate 16 7)))"
    by (subst write_loop_step) (simp_all add: default_fields c2 o2)
  finally show ?thesis
    by (simp add: at24c256_write_checked[OF chk])
qed

lemma plan_1136_20: "write_plan default_dev 1136 20 = [(1136, 16), (1152, 4)]"
  by (simp add: write_plan_def default_fields chunk_plan.simps)

theorem write_chunk_sequence_witness:
  "check_address_length (Some default_dev) 60 16 = AT24C256_OK
   \<and> unat (total_size (config default_dev)) \<le> 65536
   \<and> map_option fst (at24c256_write (Some default_dev) blank_machine 60 (Some bytes16) 16)
       = Some AT24C256_OK
   \<and> trace (snd (the (at24c256_write (Some default_dev) blank_machine 60 (Some bytes16) 16)))
       = [I2C_write [0, 60, 1, 2, 3, 4] True, Usleep 5000,
          I2C_write [0, 64, 5, 6, 7, 8, 9, 10, 11, 12, 13, 14, 15, 16] True, Usleep 5000]
   \<and> write_plan default_dev 60 16 = [(60, 4), (64, 12)]
   \<and> check_address_length (Some default_dev) 1136 20 = AT24C256_OK
   \<and> map_option fst (at24c256_write (Some default_dev) flaky_machine 1136
                        (Some (replicate 20 7)) 20)
       = Some AT24C256_ERROR_WRITE
   \<and> trace (snd (the (at24c256_write (Some default_dev) flaky_machine 1136
                        (Some (replicate 20 7)) 20)))
       = [I2C_write [4, 112, 7, 7, 7, 7, 7, 7, 7, 7, 7, 7, 7, 7, 7, 7, 7, 7] True, Usleep 5000,
          I2C_write [4, 128, 7, 7, 7, 7] False]
   \<and> write_plan default_dev 1136 20 = [(1136, 16), (1152, 4)]"
proof -
  from default_write_60_16 obtain m1
    where w: "at24c256_write (Some default_dev) blank_machine 60 (Some bytes16) 16
                = Some (AT24C256_OK, m1)" by blast
  have c1: "check_address_length (Some default_dev) 60 16 = AT24C256_OK"
    by (simp add: check_address_length_OK default_fields)
  have c2: "check_address_length (Some default_dev) 1136 20 = AT24C256_OK"
    by (simp add: check_address_length_OK default_fields)
  have b: "unat (total_size (config default_dev)) \<le> 65536"
    by (simp add: default_fields)
  from write_chunk_sequence[OF c1 b w]
  have "trace m1 = trace blank_machine @ concat (map (chunk_events default_dev (unat (60 :: u16)) bytes16)
                                           (write_plan default_dev 60 16))"
    by simp
  then have t1: "trace m1 = [I2C_write [0, 60, 1, 2, 3, 4] True, Usleep 5000,
          I2C_write [0, 64, 5, 6, 7, 8, 9, 10, 11, 12, 13, 14, 15, 16] True, Usleep 5000]"
    by (simp add: plan_60_16 blank_fields chunk_events_def default_fields bytes16_def
        addr_hi_def addr_lo_def)
  define m2 where "m2 = consume (I2C_write (addr_hi 1152 # addr_lo 1152 # replicate 4 7) False)
           (after_chunk default_dev flaky_machine 1136 (replicate 16 7))"
  have w2: "at24c256_write (Some default_dev) flaky_machine 1136 (Some (replicate 20 7)) 20
              = Some (AT24C256_ERROR_WRITE, m2)"
    by (simp add: torn_write m2_def)
  from write_chunk_sequence[OF c2 b w2]
  obtain n where n: "n < length (write_plan default_dev 1136 20)"
    and t: "trace m2 = trace flaky_machine
              @ concat (map (chunk_events default_dev (unat (1136 :: u16)) (replicate 20 7))
                            (take n (write_plan default_dev 1136 20)))
              @ [chunk_refused (unat (1136 :: u16)) (replicate 20 7) (write_plan default_dev 1136 20 ! n)]"
    by auto
  have len2: "length (trace m2) = 3"
    by (simp add: m2_def consume_def after_chunk_fields flaky_machine_def blank_fields)
  have "n = 1"
  proof -
    from n have "n = 0 \<or> n = 1" by (auto simp: plan_1136_20)
    moreover have "n \<noteq> 0"
    proof
      assume "n = 0"
      with t have "length (trace m2) = 1"
        by (simp add: flaky_machine_def blank_fields)
      with len2 show False by simp
    qed
    ultimately show ?thesis by simp
  qed
  have r20: "replicate 20 (7 :: u8) = [7, 7, 7, 7, 7, 7, 7, 7, 7, 7, 7, 7, 7, 7, 7, 7, 7, 7, 7, 7]"
    by (simp add: numeral_eq_Suc)
  from t have t2: "trace m2
       = [I2C_write [4, 112, 7, 7, 7, 7, 7, 7, 7, 7, 7, 7, 7, 7, 7, 7, 7, 7] True, Usleep 5000,
          I2C_write [4, 128, 7, 7, 7, 7] False]"
    unfolding \<open>n = 1\<close> r20
    by (simp add: plan_1136_20 flaky_machine_def blank_fields chunk_events_def chunk_refused_def
        default_fields addr_hi_def addr_lo_def)
  show ?thesis
    using w c1 c2 b t1 w2 t2 by (simp add: plan_60_16 plan_1136_20)
qed

section \<open>One write or several\<close>

lemma write_separately_ok:
  assumes "initialized dev" "page_size (config dev) \<noteq> 0"
    and "script m = []" "dev_page m = unat (page_size (config dev))"
    and "[] \<notin> set pieces"
    and "unat a + length (concat pieces) \<le> unat (total_size (config dev))"
    and "length (concat pieces) < 65536"
  shows "\<exists>m2. write_separately (Some dev) m a pieces = Some (AT24C256_OK, m2)
           \<and> mem m2 = store_bytes (mem m) a (concat pieces)"
  using assms(3-)
proof (induction pieces arbitrary: m a)
  case Nil
  then show ?case by simp
next
  case (Cons p pieces)
  let ?n = "of_nat (length p) :: u16"
  have lp: "0 < length p" "length p < 65536"
    using Cons.prems(3,5) by auto
  have un: "unat ?n = length p" using lp by (simp add: unat_of_nat_u16)
  have nz: "?n \<noteq> 0" using lp by (intro of_nat_u16_neq0)
  have chk: "check_address_length (Some dev) a ?n = AT24C256_OK"
    using assms(1) Cons.prems(4) nz by (simp add: check_address_length_OK un)
  from write_loop_total[OF Cons.prems(1) assms(2), of ?n p a]
  obtain m1 where wl: "write_loop dev m ?n a p = Some (AT24C256_OK, m1)" and s1: "script m1 = []"
    by (auto simp: un)
  from write_loop_ok_mem[OF wl Cons.prems(2)]
  have mm: "mem m1 = store_bytes (mem m) a p" and dp1: "dev_page m1 = unat (page_size (config dev))"
    using Cons.prems(2) by (simp_all add: un)
  have "unat (a + ?n) \<le> unat a + length p"
    using unat_add_le_u16[of a ?n] by (simp add: un)
  then have rng: "unat (a + ?n) + length (concat pieces) \<le> unat (total_size (config dev))"
    using Cons.prems(4) by simp
  have "[] \<notin> set pieces" "length (concat pieces) < 65536"
    using Cons.prems(3,5) by simp_all
  from Cons.IH[OF s1 dp1 this(1) rng this(2)]
  obtain m2 where "write_separately (Some dev) m1 (a + ?n) pieces = Some (AT24C256_OK, m2)"
    and "mem m2 = store_bytes (mem m1) (a + ?n) (concat pieces)" by blast
  then show ?case
    by (simp add: at24c256_write_checked[OF chk] wl mm store_bytes_append)
qed

text \<open>
  C2. Let a single \<open>at24c256_write\<close> return \<open>AT24C256_OK\<close> on a channel that does not
  fail and a device whose page length is the configured one. Cut the \<open>len\<close> bytes written
  into non-empty pieces in any way, in particular into pieces that each stay within one page,
  and issue them as separate writes from the same starting machine, each at the address where
  the previous piece ended. Then every separate write succeeds and the device holds the same
  bytes as after the single write, whatever the number of page boundaries in the range.
\<close>

theorem page_split_invisible:
  assumes "at24c256_write (Some dev) m addr (Some data) len = Some (AT24C256_OK, m1)"
    and "script m = []" and "dev_page m = unat (page_size (config dev))"
    and "concat pieces = take (unat len) data" and "[] \<notin> set pieces"
  shows "\<exists>m2. write_separately (Some dev) m addr pieces = Some (AT24C256_OK, m2)
           \<and> mem m2 = mem m1"
proof -
  from at24c256_write_OK_D[OF assms(1)]
  have chk: "check_address_length (Some dev) addr len = AT24C256_OK"
    and wl: "write_loop dev m len addr data = Some (AT24C256_OK, m1)" by auto
  from write_loop_ok_mem[OF wl assms(3)]
  have mm: "mem m1 = store_bytes (mem m) addr (take (unat len) data)"
    and le: "unat len \<le> length data" by simp_all
  have l: "length (concat pieces) = unat len"
    using le by (simp only: assms(4) length_take min.absorb2)
  have i: "initialized dev" and rng: "unat addr + unat len \<le> unat (total_size (config dev))"
    and "0 < len"
    using chk by (auto simp: check_address_length_OK word_gt_0)
  then have ps: "page_size (config dev) \<noteq> 0"
    using wl write_loop_zero_page[of len dev m addr data] by fastforce
  have lt: "unat len < 65536" using unsigned_less[of len, where 'a=nat] by simp
  from write_separately_ok[OF i ps assms(2,3,5), of addr] rng lt
  show ?thesis
    by (simp only: l mm assms(4)[symmetric])
qed

theorem page_split_invisible_witness:
  "map_option fst (at24c256_write (Some default_dev) blank_machine 60 (Some bytes16) 16)
     = Some AT24C256_OK
   \<and> script blank_machine = []
   \<and> dev_page blank_machine = unat (page_size (config default_dev))
   \<and> concat [[1, 2, 3, 4], [5, 6, 7, 8, 9, 10, 11, 12, 13, 14, 15, 16]]
       = take (unat (16 :: u16)) bytes16
   \<and> [] \<notin> set [[1, 2, 3, 4], [5, 6, 7, 8, 9, 10, 11, 12, 13, 14, 15, 16 :: u8]]
   \<and> map_option fst (write_separately (Some default_dev) blank_machine 60
        [[1, 2, 3, 4], [5, 6, 7, 8, 9, 10, 11, 12, 13, 14, 15, 16]]) = Some AT24C256_OK
   \<and> mem (snd (the (write_separately (Some default_dev) blank_machine 60
        [[1, 2, 3, 4], [5, 6, 7, 8, 9, 10, 11, 12, 13, 14, 15, 16]])))
       = mem (snd (the (at24c256_write (Some default_dev) blank_machine 60 (Some bytes16) 16)))"
proof -
  from default_write_60_16 obtain m1
    where w: "at24c256_write (Some default_dev) blank_machine 60 (Some bytes16) 16
                = Some (AT24C256_OK, m1)" by blast
  have s: "script blank_machine = []" by (simp add: blank_fields)
  have dp: "dev_page blank_machine = unat (page_size (config default_dev))"
    by (simp add: blank_fields default_fields)
  have c: "concat [[1, 2, 3, 4], [5, 6, 7, 8, 9, 10, 11, 12, 13, 14, 15, 16]]
       = take (unat (16 :: u16)) bytes16"
    by (simp add: bytes16_def)
  have n: "[] \<notin> set [[1, 2, 3, 4], [5, 6, 7, 8, 9, 10, 11, 12, 13, 14, 15, 16 :: u8]]"
    by simp
  from page_split_invisible[OF w s dp c n]
  show ?thesis
    using w s dp c n by auto
qed

section \<open>The file index: writing\<close>

lemma at24c256_write_good:
  assumes "check_address_length (Some dev) a len = AT24C256_OK"
    and "page_size (config dev) \<noteq> 0" and "script m = []"
    and "dev_page m = unat (page_size (config dev))" and "unat len \<le> length data"
  shows "\<exists>m'. at24c256_write (Some dev) m a (Some data) len = Some (AT24C256_OK, m')
           \<and> mem m' = store_bytes (mem m) a (take (unat len) data) \<and> script m' = []
           \<and> dev_page m' = dev_page m \<and> heap_exhausted m' = heap_exhausted m"
proof -
  from write_loop_total[OF assms(3,2,5), of a]
  obtain m' where wl: "write_loop dev m len a data = Some (AT24C256_OK, m')" and s: "script m' = []"
    by blast
  from write_loop_ok_mem[OF wl assms(4)] s wl
  show ?thesis
    by (simp add: at24c256_write_checked[OF assms(1)])
qed

lemma u16_bytes_inverse: "u16_of_bytes (u16_bytes w ! 0) (u16_bytes w ! 1) = w"
proof -
  have "u16_of_bytes (ucast w) (ucast (drop_bit 8 w)) = w"
    unfolding u16_of_bytes_def
    by (rule bit_word_eqI) (auto simp: bit_simps)
  then show ?thesis by (simp add: u16_bytes_def)
qed

lemma header_roundtrip:
  assumes "length (magic h) = 4" "length (reserved h) = 8"
  shows "header_of_bytes (header_bytes h) = h"
  using assms u16_bytes_inverse[of "index_total_size h"]
  by (simp add: header_of_bytes_def header_bytes_def nth_append u16_bytes_def)

lemma header_bytes_length:
  "length (magic h) = 4 \<Longrightarrow> length (reserved h) = 8 \<Longrightarrow> length (header_bytes h) = 16"
  by (simp add: header_bytes_def u16_bytes_def)

lemma empty_index_roundtrip:
  assumes "initialized dev" "16 \<le> unat (total_size (config dev))"
    and "page_size (config dev) \<noteq> 0" and "script m = []"
    and "dev_page m = unat (page_size (config dev))"
  shows "\<exists>m1 m2. write_file_index (Some dev) m [] = Some (0, m1)
           \<and> read_file_index (Some dev) m1 = (0, [], m2)"
proof -
  let ?h = "\<lparr>magic = CAM_magic, version = 1, file_count = 0, index_total_size = 0,
             reserved = replicate 8 0\<rparr>"
  have hl: "length (magic ?h) = 4" "length (reserved ?h) = 8"
    by (simp_all add: CAM_magic_def)
  have chk: "check_address_length (Some dev) 0 16 = AT24C256_OK"
    using assms(1,2) by (simp add: check_address_length_OK)
  have len: "unat (16 :: u16) \<le> length (header_bytes ?h)"
    by (simp add: header_bytes_length[OF hl])
  from at24c256_write_good[OF chk assms(3,4,5) len]
  obtain m1 where w: "at24c256_write (Some dev) m 0 (Some (header_bytes ?h)) 16
                        = Some (AT24C256_OK, m1)"
    and s1: "script m1 = []" by blast
  from at24c256_read_total[OF chk _ s1, of "Some []"]
  obtain out m2 where r: "at24c256_read (Some dev) m1 0 (Some []) 16 = (AT24C256_OK, out, m2)"
    by auto
  have "out = Some (take (unat (16 :: u16)) (header_bytes ?h))"
    by (rule write_read_same_range[OF w _ r]) (simp add: assms(5))
  then have out: "out = Some (header_bytes ?h)"
    using header_bytes_length[OF hl] by simp
  have wi: "write_file_index (Some dev) m [] = Some (0, m1)"
    using w by (simp add: write_file_index_def EEPROM_START_ADDRESS_def sizeof_index_header_t_def)
  have ri: "read_file_index (Some dev) m1 = (0, [], m2)"
    using r
    by (simp add: read_file_index_def EEPROM_START_ADDRESS_def sizeof_index_header_t_def out
        header_roundtrip[OF hl] MAX_FILES_def)
  show ?thesis using wi ri by blast
qed

lemma write_files_nothing_stored:
  "list_all passed_over entries \<Longrightarrow>
     process_entries handle input_dir entries m files a = Some (files, m)"
  by (induction entries) (auto simp: passed_over_def)

text \<open>
  C5, as the code has it. \<open>write_files\<close> on an empty input list fails: the exit status is
  \<open>EXIT_FAILURE\<close>, the only thing done is the release of the handle, and the device cells are
  what they were, so no directory is produced. The empty directory of the claim is what
  \<open>write_file_index\<close> produces when it is given zero entries (which \<open>main\<close> never
  does): on a channel that does not fail it writes a header that \<open>read_file_index\<close> then
  reads back with success and zero entries.
\<close>

theorem write_files_empty_input:
  "write_files handle m (Some []) = Some (EXIT_FAILURE, snd (at24c256_deinit handle m))
   \<and> mem (snd (at24c256_deinit handle m)) = mem m
   \<and> (initialized dev \<and> 16 \<le> unat (total_size (config dev)) \<and> page_size (config dev) \<noteq> 0
        \<and> script m = [] \<and> dev_page m = unat (page_size (config dev))
      \<longrightarrow> (\<exists>m1 m2. write_file_index (Some dev) m [] = Some (0, m1)
             \<and> read_file_index (Some dev) m1 = (0, [], m2)))"
proof (intro conjI impI)
  show "write_files handle m (Some []) = Some (EXIT_FAILURE, snd (at24c256_deinit handle m))"
    by (simp add: write_files_def process_camera_parameters_def)
  show "mem (snd (at24c256_deinit handle m)) = mem m"
    by (simp add: at24c256_deinit_def split: option.splits)
next
  assume "initialized dev \<and> 16 \<le> unat (total_size (config dev)) \<and> page_size (config dev) \<noteq> 0
        \<and> script m = [] \<and> dev_page m = unat (page_size (config dev))"
  then show "\<exists>m1 m2. write_file_index (Some dev) m [] = Some (0, m1)
             \<and> read_file_index (Some dev) m1 = (0, [], m2)"
    using empty_index_roundtrip by blast
qed

lemma default_check_0_16: "check_address_length (Some default_dev) 0 16 = AT24C256_OK"
  by (simp add: check_address_length_OK default_fields)

lemma read_file_index_blank:
  assumes "script m = []" "mem m 0 = 0xFF"
  shows "fst (read_file_index (Some default_dev) m) = -1"
proof -
  from at24c256_read_total[OF default_check_0_16 _ assms(1), of "Some []"]
  obtain out m2 where r: "at24c256_read (Some default_dev) m 0 (Some []) 16 = (AT24C256_OK, out, m2)"
    by auto
  let ?bs = "map (\<lambda>i. mem m (0 + of_nat i)) [0..<unat (16 :: u16)]"
  have out: "out = Some ?bs"
    by (rule at24c256_read_OK_D(1)[OF r])
  have "magic (header_of_bytes ?bs) ! 0 = 0xFF"
    by (simp add: header_of_bytes_def assms(2))
  then have "magic (header_of_bytes ?bs) \<noteq> CAM_magic"
    by (auto simp: CAM_magic_def)
  then show ?thesis
    using r
    by (simp add: read_file_index_def EEPROM_START_ADDRESS_def sizeof_index_header_t_def out)
qed

theorem write_files_empty_input_witness:
  "write_files (Some default_dev) blank_machine (Some [])
     = Some (EXIT_FAILURE, snd (at24c256_deinit (Some default_dev) blank_machine))
   \<and> initialized default_dev \<and> 16 \<le> unat (total_size (config default_dev))
   \<and> page_size (config default_dev) \<noteq> 0 \<and> script blank_machine = []
   \<and> dev_page blank_machine = unat (page_size (config default_dev))
   \<and> map_option fst (write_file_index (Some default_dev) blank_machine []) = Some 0
   \<and> fst (read_file_index (Some default_dev)
            (snd (the (write_file_index (Some default_dev) blank_machine [])))) = 0
   \<and> fst (snd (read_file_index (Some default_dev)
            (snd (the (write_file_index (Some default_dev) blank_machine []))))) = []"
proof -
  have h: "initialized default_dev \<and> 16 \<le> unat (total_size (config default_dev))
           \<and> page_size (config default_dev) \<noteq> 0 \<and> script blank_machine = []
           \<and> dev_page blank_machine = unat (page_size (config default_dev))"
    by (simp add: default_fields blank_fields)
  from write_files_empty_input[of "Some default_dev" blank_machine default_dev] h
  obtain m1 m2 where
    "write_files (Some default_dev) blank_machine (Some [])
       = Some (EXIT_FAILURE, snd (at24c256_deinit (Some default_dev) blank_machine))"
    "write_file_index (Some default_dev) blank_machine [] = Some (0, m1)"
    "read_file_index (Some default_dev) m1 = (0, [], m2)"
    by blast
  then show ?thesis using h by simp
qed

text \<open>
  The claim as the specification words it fails on an erased device: \<open>write_files\<close> on
  the empty list returns \<open>EXIT_FAILURE\<close>, makes no transfer on the channel, and the
  \<open>read_file_index\<close> that follows fails on the magic.
\<close>

theorem write_files_empty_input_fails:
  "map_option fst (write_files (Some default_dev) blank_machine (Some [])) = Some EXIT_FAILURE
   \<and> EXIT_FAILURE \<noteq> EXIT_SUCCESS
   \<and> map_option (trace \<circ> snd) (write_files (Some default_dev) blank_machine (Some []))
       = Some [Sys_close 3]
   \<and> fst (read_file_index (Some default_dev)
            (snd (the (write_files (Some default_dev) blank_machine (Some []))))) = -1"
proof -
  have w: "write_files (Some default_dev) blank_machine (Some [])
          = Some (EXIT_FAILURE, blank_machine\<lparr>trace := [Sys_close 3]\<rparr>)"
    by (simp add: write_files_def process_camera_parameters_def at24c256_deinit_def
        default_dev_def blank_fields)
  have "fst (read_file_index (Some default_dev) (blank_machine\<lparr>trace := [Sys_close 3]\<rparr>)) = -1"
    by (rule read_file_index_blank) (simp_all add: blank_machine_def)
  then show ?thesis
    by (simp add: w EXIT_FAILURE_def EXIT_SUCCESS_def)
qed

lemma unat_add_small: "unat a + j < 65536 \<Longrightarrow> unat (a + of_nat j :: u16) = unat a + j"
proof -
  assume a: "unat a + j < 65536"
  then have "j < 65536" by simp
  then have "unat (of_nat j :: u16) = j" by (rule unat_of_nat_u16)
  moreover have "unat a + unat (of_nat j :: u16) < 2 ^ LENGTH(16)"
    using a calculation by simp
  ultimately show ?thesis
    using unat_add_lem[THEN iffD1, of a "of_nat j"] by simp
qed

lemma store_bytes_below:
  assumes "unat x < unat a" "unat a + length bs \<le> 65536"
  shows "store_bytes cells a bs x = cells x"
proof (rule store_bytes_outside)
  fix j assume "j < length bs"
  then have "unat (a + of_nat j) = unat a + j"
    using assms(2) by (intro unat_add_small) simp
  then show "x \<noteq> a + of_nat j" using assms(1) by auto
qed

lemma write_loop_mem_outside:
  assumes "write_loop dev m remaining a data = Some (r, m')"
    and "dev_page m = unat (page_size (config dev))"
    and "\<And>j. j < unat remaining \<Longrightarrow> x \<noteq> a + of_nat j"
  shows "mem m' x = mem m x \<and> dev_page m' = dev_page m"
  using assms
proof (induction "unat remaining" arbitrary: remaining m a data rule: less_induct)
  case less
  show ?case
  proof (cases "remaining = 0")
    case True
    then show ?thesis using less.prems by (simp add: write_loop_done)
  next
    case False
    then have pos: "0 < remaining" by (simp add: word_gt_0)
    have ps: "page_size (config dev) \<noteq> 0"
      using less.prems(1) write_loop_zero_page[OF pos] by fastforce
    define b where "b = chunk_size (page_size (config dev)) remaining a"
    note bb = chunk_size_bounds[OF pos ps, of a, folded b_def]
    let ?m1 = "after_chunk dev m a (take (unat b) data)"
    from less.prems(1) have long: "\<not> length data < unat b"
      by (auto simp: write_loop_step[OF pos ps] Let_def b_def[symmetric] split: if_splits)
    show ?thesis
    proof (cases "outcome m")
      case False
      then show ?thesis
        using less.prems(1) long
        by (auto simp: write_loop_step[OF pos ps] Let_def b_def[symmetric] consume_def)
    next
      case True
      then have rec: "write_loop dev ?m1 (remaining - b) (a + b) (drop (unat b) data) = Some (r, m')"
        using less.prems(1) long
        by (auto simp: write_loop_step[OF pos ps] Let_def b_def[symmetric])
      have lt: "unat (remaining - b) < unat remaining"
        using bb by simp
      have dp: "dev_page ?m1 = unat (page_size (config dev))"
        using less.prems(2) by (simp add: after_chunk_fields)
      have lin: "mem ?m1 = store_bytes (mem m) a (take (unat b) data)"
        unfolding after_chunk_fields less.prems(2)
        using bb long ps by (intro dev_program_linear) (simp_all add: unat_gt_0)
      have x1: "mem ?m1 x = mem m x"
        unfolding lin
      proof (rule store_bytes_outside)
        fix j assume "j < length (take (unat b) data)"
        then have "j < unat remaining" using bb by simp
        then show "x \<noteq> a + of_nat j" by (rule less.prems(3))
      qed
      have "mem m' x = mem ?m1 x \<and> dev_page m' = dev_page ?m1"
      proof (rule less.hyps[OF lt rec dp])
        fix j assume "j < unat (remaining - b)"
        then have "unat b + j < unat remaining" using bb by simp
        from less.prems(3)[OF this] show "x \<noteq> a + b + of_nat j"
          by (simp add: add.assoc)
      qed
      then show ?thesis
        using x1 by (simp add: after_chunk_fields)
    qed
  qed
qed

lemma write_loop_dev_page:
  "write_loop dev m remaining a data = Some (r, m') \<Longrightarrow> dev_page m' = dev_page m"
proof (induction "unat remaining" arbitrary: remaining m a data rule: less_induct)
  case less
  show ?case
  proof (cases "remaining = 0")
    case True
    then show ?thesis using less.prems by (simp add: write_loop_done)
  next
    case False
    then have pos: "0 < remaining" by (simp add: word_gt_0)
    have ps: "page_size (config dev) \<noteq> 0"
      using less.prems(1) write_loop_zero_page[OF pos] by fastforce
    define b where "b = chunk_size (page_size (config dev)) remaining a"
    note bb = chunk_size_bounds[OF pos ps, of a, folded b_def]
    let ?m1 = "after_chunk dev m a (take (unat b) data)"
    have lt: "unat (remaining - b) < unat remaining"
      using bb by simp
    from less.prems(1) have long: "\<not> length data < unat b"
      by (auto simp: write_loop_step[OF pos ps] Let_def b_def[symmetric] split: if_splits)
    show ?thesis
    proof (cases "outcome m")
      case False
      then show ?thesis
        using less.prems(1) long
        by (auto simp: write_loop_step[OF pos ps] Let_def b_def[symmetric] consume_def)
    next
      case True
      then have "write_loop dev ?m1 (remaining - b) (a + b) (drop (unat b) data) = Some (r, m')"
        using less.prems(1) long
        by (auto simp: write_loop_step[OF pos ps] Let_def b_def[symmetric])
      from less.hyps[OF lt this] show ?thesis
        by (simp add: after_chunk_fields)
    qed
  qed
qed

lemma at24c256_write_dev_page:
  "at24c256_write handle m a data len = Some (r, m') \<Longrightarrow> dev_page m' = dev_page m"
  by (auto simp: at24c256_write_def Let_def write_loop_dev_page
      split: if_splits option.splits)

lemma at24c256_write_below:
  assumes "at24c256_write (Some dev) m a (Some data) len = Some (r, m')"
    and "dev_page m = unat (page_size (config dev))"
    and "unat (total_size (config dev)) \<le> 65536" and "unat x < unat a"
  shows "mem m' x = mem m x \<and> dev_page m' = dev_page m"
  using at24c256_write_cases[OF assms(1)]
proof
  assume "r \<noteq> AT24C256_OK \<and> m' = m \<and> check_address_length (Some dev) a len \<noteq> AT24C256_OK"
  then show ?thesis by simp
next
  assume c: "check_address_length (Some dev) a len = AT24C256_OK
             \<and> write_loop dev m len a data = Some (r, m')"
  then have rng: "unat a + unat len \<le> 65536"
    using assms(3) by (simp add: check_address_length_OK)
  show ?thesis
  proof (rule write_loop_mem_outside[OF _ assms(2)])
    show "write_loop dev m len a data = Some (r, m')" using c by simp
    fix j assume "j < unat len"
    then have "unat (a + of_nat j) = unat a + j"
      using rng by (intro unat_add_small) simp
    then show "x \<noteq> a + of_nat j" using assms(4) by auto
  qed
qed

lemma write_loop_partial:
  assumes "write_loop dev m remaining a data = Some (r, m')"
    and "dev_page m = unat (page_size (config dev))"
    and "unat a + unat remaining \<le> 65536"
  shows "\<exists>n evs. trace m' = trace m @ evs
           \<and> tx_chunks evs = take n (chunk_plan (unat (page_size (config dev))) (unat a) (unat remaining))
           \<and> mem m' = store_bytes (mem m) a
                (take (sum_list (map snd
                   (take n (chunk_plan (unat (page_size (config dev))) (unat a) (unat remaining)))))
                   data)"
  using assms
proof (induction "unat remaining" arbitrary: remaining m a data rule: less_induct)
  case less
  let ?ps = "unat (page_size (config dev))"
  let ?plan = "chunk_plan ?ps (unat a) (unat remaining)"
  have stop: "\<exists>n evs. trace mm = trace mm @ evs \<and> tx_chunks evs = take n plan
                \<and> mem mm = store_bytes (mem mm) x (take (sum_list (map snd (take n plan))) bs)"
    for mm :: machine and plan x bs
  proof -
    have "trace mm = trace mm @ [] \<and> tx_chunks [] = take 0 plan
            \<and> mem mm = store_bytes (mem mm) x (take (sum_list (map snd (take 0 plan))) bs)"
      by simp
    then show ?thesis by blast
  qed
  show ?case
  proof (cases "remaining = 0")
    case True
    then have "m' = m" using less.prems by (simp add: write_loop_done)
    then show ?thesis using stop[of m ?plan a data] by simp
  next
    case False
    then have pos: "0 < remaining" by (simp add: word_gt_0)
    have ps: "page_size (config dev) \<noteq> 0"
      using less.prems(1) write_loop_zero_page[OF pos] by fastforce
    define b where "b = chunk_size (page_size (config dev)) remaining a"
    note bb = chunk_size_bounds[OF pos ps, of a, folded b_def]
    have ub: "unat b = min (unat remaining) (?ps - unat a mod ?ps)"
      by (simp add: b_def unat_chunk_size[OF pos ps])
    let ?m1 = "after_chunk dev m a (take (unat b) data)"
    let ?rest = "chunk_plan ?ps (unat a + unat b) (unat (remaining - b))"
    from less.prems(1) have long: "\<not> length data < unat b"
      by (auto simp: write_loop_step[OF pos ps] Let_def b_def[symmetric] split: if_splits)
    have n0: "0 < unat remaining" "0 < ?ps"
      using pos ps by (simp_all add: word_less_nat_alt unat_gt_0)
    have plan: "?plan = (unat a, unat b) # ?rest"
      using chunk_plan_step[OF n0, of "unat a"] bb by (simp add: ub)
    show ?thesis
    proof (cases "outcome m")
      case False
      then have "trace m' = trace m @ [I2C_write (addr_hi a # addr_lo a # take (unat b) data) False]"
        and "mem m' = mem m"
        using less.prems(1) long
        by (auto simp: write_loop_step[OF pos ps] Let_def b_def[symmetric] consume_def)
      moreover have "tx_chunks [I2C_write (addr_hi a # addr_lo a # take (unat b) data) False]
                     = take 0 ?plan"
        by (cases "take (unat b) data") simp_all
      moreover have "mem m = store_bytes (mem m) a (take (sum_list (map snd (take 0 ?plan))) data)"
        by simp
      ultimately show ?thesis by (metis (no_types))
    next
      case True
      then have rec: "write_loop dev ?m1 (remaining - b) (a + b) (drop (unat b) data) = Some (r, m')"
        using less.prems(1) long
        by (auto simp: write_loop_step[OF pos ps] Let_def b_def[symmetric])
      have lt: "unat (remaining - b) < unat remaining"
        using bb by simp
      have dp: "dev_page ?m1 = ?ps"
        using less.prems(2) by (simp add: after_chunk_fields)
      have lin: "mem ?m1 = store_bytes (mem m) a (take (unat b) data)"
        unfolding after_chunk_fields less.prems(2)
        using bb long ps by (intro dev_program_linear) (simp_all add: unat_gt_0)
      have "\<exists>n evs. trace m' = trace ?m1 @ evs \<and> tx_chunks evs = take n ?rest
              \<and> mem m' = store_bytes (mem ?m1) (a + b)
                   (take (sum_list (map snd (take n ?rest))) (drop (unat b) data))"
      proof (cases "remaining - b = 0")
        case True
        then have "m' = ?m1" using rec by (simp add: write_loop_done)
        then show ?thesis
          using stop[of ?m1 ?rest "a + b" "drop (unat b) data"] by simp
      next
        case False
        then have "0 < unat (remaining - b)" by (simp add: unat_gt_0)
        then have "unat a + unat b < 65536"
          using less.prems(3) bb by simp
        then have ua: "unat (a + b) = unat a + unat b"
          by (simp add: unat_add_lem[THEN iffD1])
        have "unat (a + b) + unat (remaining - b) \<le> 65536"
          using less.prems(3) bb by (simp add: ua)
        from less.hyps[OF lt rec dp this] show ?thesis by (simp only: ua)
      qed
      then obtain n evs where e: "trace m' = trace ?m1 @ evs"
        and t: "tx_chunks evs = take n ?rest"
        and mm: "mem m' = store_bytes (mem ?m1) (a + b)
                   (take (sum_list (map snd (take n ?rest))) (drop (unat b) data))"
        by blast
      have a16: "unat a < 65536" using unsigned_less[of a, where 'a=nat] by simp
      have first: "tx_chunks (chunk_events dev (unat a) data (unat a, unat b)) = [(unat a, unat b)]"
        using bb long a16 by (intro tx_chunks_chunk_events) simp_all
      have ce: "chunk_events dev (unat a) data (unat a, unat b)
                 = [I2C_write (addr_hi a # addr_lo a # take (unat b) data) True,
                    Usleep (unat (write_delay_ms (config dev)) * 1000)]"
        by (simp add: chunk_events_def)
      have 1: "trace m' = trace m @ (chunk_events dev (unat a) data (unat a, unat b) @ evs)"
        by (simp add: e after_chunk_fields ce)
      have 2: "tx_chunks (chunk_events dev (unat a) data (unat a, unat b) @ evs)
                     = take (Suc n) ?plan"
        by (simp only: tx_chunks_append first t plan take_Suc_Cons append_Cons append_Nil)
      have lb: "min (length data) (unat b) = unat b" using long by simp
      have split: "take (unat b + k) data = take (unat b) data @ take k (drop (unat b) data)" for k
        by (simp add: take_add)
      have "store_bytes (mem m) a (take (unat b) data @ bs)
              = store_bytes (store_bytes (mem m) a (take (unat b) data)) (a + b) bs" for bs
        by (simp add: store_bytes_append lb)
      then have 3: "mem m' = store_bytes (mem m) a
                      (take (sum_list (map snd (take (Suc n) ?plan))) data)"
        by (simp add: plan mm lin split)
      from 1 2 3 show ?thesis by blast
    qed
  qed
qed

lemma at24c256_write_partial:
  assumes "at24c256_write (Some dev) m a (Some data) len = Some (r, m')"
    and "dev_page m = unat (page_size (config dev))"
    and "unat (total_size (config dev)) \<le> 65536"
  shows "\<exists>n evs. trace m' = trace m @ evs
           \<and> tx_chunks evs = take n (write_plan dev a len)
           \<and> mem m' = store_bytes (mem m) a
                (take (sum_list (map snd (take n (write_plan dev a len)))) data)"
  using at24c256_write_cases[OF assms(1)]
proof
  assume "r \<noteq> AT24C256_OK \<and> m' = m \<and> check_address_length (Some dev) a len \<noteq> AT24C256_OK"
  then have "trace m' = trace m @ [] \<and> tx_chunks [] = take 0 (write_plan dev a len)
           \<and> mem m' = store_bytes (mem m) a
                (take (sum_list (map snd (take 0 (write_plan dev a len)))) data)"
    by simp
  then show ?thesis by blast
next
  assume c: "check_address_length (Some dev) a len = AT24C256_OK
             \<and> write_loop dev m len a data = Some (r, m')"
  then have "unat a + unat len \<le> 65536"
    using assms(3) by (simp add: check_address_length_OK)
  from write_loop_partial[OF _ assms(2) this] c show ?thesis
    by (simp add: write_plan_def)
qed

lemma process_entries_Cons:
  "process_entries handle input_dir (entry # rest) m files current_address =
     (if passed_over entry
        then process_entries handle input_dir rest m files current_address
      else
        (case write_file_to_eeprom handle m (take 511 (input_dir @ ''/'' @ d_name entry))
                (contents entry) current_address of
           None \<Rightarrow> None
         | Some (r, info, m1) \<Rightarrow>
             if r = 0 then
               (case info of
                  None \<Rightarrow> None
                | Some file_info \<Rightarrow>
                    if length files \<ge> MAX_FILES then None
                    else process_entries handle input_dir rest m1 (files @ [file_info])
                           (current_address + fsize file_info))
             else process_entries handle input_dir rest m1 files current_address))"
  by (simp add: passed_over_def)

lemma process_entries_too_large:
  assumes "\<not> passed_over e" "contents e = Some buf" "length buf > MAX_FILE_SIZE"
  shows "process_entries handle d (pre @ e # rest) m files a
           = process_entries handle d (pre @ rest) m files a"
proof (induction pre arbitrary: m files a)
  case Nil
  show ?case
    using assms by (simp add: process_entries_Cons write_file_to_eeprom_def
        del: process_entries.simps(2))
next
  case (Cons p pre)
  show ?case
    by (simp add: process_entries_Cons Cons.IH del: process_entries.simps(2)
        split: option.splits)
qed

lemma process_entries_failed_write:
  assumes "\<not> passed_over e" "contents e = Some buf" "length buf \<le> MAX_FILE_SIZE"
    and "\<not> heap_exhausted m"
    and "at24c256_write handle m a (Some buf) (of_nat (length buf)) = Some (ret, m1)"
    and "ret \<noteq> AT24C256_OK"
  shows "process_entries handle d (e # rest) m files a = process_entries handle d rest m1 files a"
  using assms by (simp add: process_entries_Cons write_file_to_eeprom_def
      del: process_entries.simps(2))

lemma process_entries_all_fail:
  assumes "every_blob_fails (Some dev) entries m a"
    and "dev_page m = unat (page_size (config dev))"
    and "unat (total_size (config dev)) \<le> 65536"
  shows "\<exists>m'. process_entries (Some dev) input_dir entries m files a = Some (files, m')
           \<and> (\<forall>x. unat x < unat a \<longrightarrow> mem m' x = mem m x)"
  using assms(1,2)
proof (induction entries arbitrary: m)
  case Nil
  then show ?case by simp
next
  case (Cons e entries)
  show ?case
  proof (cases "passed_over e \<or> contents e = None
                \<or> length (the (contents e)) > MAX_FILE_SIZE \<or> heap_exhausted m")
    case True
    then have "every_blob_fails (Some dev) entries m a"
      using Cons.prems(1) by (auto split: option.splits if_splits)
    from Cons.IH[OF this Cons.prems(2)] True
    show ?thesis
      by (auto simp: passed_over_def write_file_to_eeprom_def Let_def split: option.splits)
  next
    case False
    then obtain buffer where b: "contents e = Some buffer" "\<not> length buffer > MAX_FILE_SIZE"
      "\<not> heap_exhausted m" "\<not> passed_over e"
      by auto
    from Cons.prems(1) b obtain ret m1
      where w: "at24c256_write (Some dev) m a (Some buffer) (of_nat (length buffer)) = Some (ret, m1)"
        and r: "ret \<noteq> AT24C256_OK" and rest: "every_blob_fails (Some dev) entries m1 a"
      by (auto split: option.splits)
    have same: "\<And>x. unat x < unat a \<Longrightarrow> mem m1 x = mem m x"
      using at24c256_write_below[OF w Cons.prems(2) assms(3)] by simp
    have dp1: "dev_page m1 = unat (page_size (config dev))"
      using at24c256_write_dev_page[OF w] Cons.prems(2) by simp
    from Cons.IH[OF rest dp1]
    obtain m' where "process_entries (Some dev) input_dir entries m1 files a = Some (files, m')"
      and "\<forall>x. unat x < unat a \<longrightarrow> mem m' x = mem m1 x" by blast
    then show ?thesis
      using b w r same
      by (auto simp: passed_over_def write_file_to_eeprom_def Let_def)
  qed
qed

lemma payload_start_value: "payload_start = 1136" "(of_nat payload_start :: u16) = 1136"
  by (simp_all add: payload_start_def sizeof_index_header_t_def MAX_FILES_def
      sizeof_file_index_t_def)

text \<open>
  C4, as the code has it, on a device whose page length is the configured one and whose
  declared size fits the 16-bit address space. A blob that cannot be stored does not end the
  operation; it is skipped. (1) A blob of more than \<open>MAX_FILE_SIZE\<close> bytes is skipped
  without any transfer: wherever it stands in the input, whatever entries are recorded so
  far and whatever the next free address is, the loop and the whole operation give what
  they give on the input without that blob. (2) A blob whose driver write returns an error
  is skipped on the machine that write left: the entries recorded so far and the next free
  address are unchanged and the remaining blobs are processed from that machine; when it is
  the first blob, the whole operation gives what it gives on the remaining blobs from that
  machine. Nothing is rolled back: the chunks that reached the device during the failed
  write are an initial part of the chunk plan, and the device holds exactly their bytes
  from the blob's address on and is unchanged elsewhere; no entry is recorded for the blob.
  (3) If every blob of the input fails to be stored (it exceeds \<open>MAX_FILE_SIZE\<close>, or its
  driver write returns an error, or it is passed over, unreadable or without buffer), no
  entry is recorded, the whole operation fails with \<open>EXIT_FAILURE\<close>, the device is left as
  the blobs left it, and no cell of the directory region (the addresses below the first
  payload address) has changed.
\<close>

theorem write_files_failed_blob:
  assumes "dev_page m = unat (page_size (config dev))"
    and "unat (total_size (config dev)) \<le> 65536"
  shows "(\<not> passed_over e \<and> contents e = Some buf \<and> length buf > MAX_FILE_SIZE \<longrightarrow>
            process_entries (Some dev) d (pre @ e # rest) m files a
              = process_entries (Some dev) d (pre @ rest) m files a
          \<and> write_files (Some dev) m (Some (pre @ e # rest))
              = write_files (Some dev) m (Some (pre @ rest)))
       \<and> (\<not> passed_over e \<and> contents e = Some buf \<and> length buf \<le> MAX_FILE_SIZE
            \<and> \<not> heap_exhausted m
            \<and> at24c256_write (Some dev) m a (Some buf) (of_nat (length buf)) = Some (ret, m1)
            \<and> ret \<noteq> AT24C256_OK \<longrightarrow>
            process_entries (Some dev) d (e # rest) m files a
              = process_entries (Some dev) d rest m1 files a
          \<and> (a = of_nat payload_start \<longrightarrow>
                write_files (Some dev) m (Some (e # rest)) = write_files (Some dev) m1 (Some rest))
          \<and> (\<exists>n evs. trace m1 = trace m @ evs
                \<and> tx_chunks evs = take n (write_plan dev a (of_nat (length buf)))
                \<and> mem m1 = store_bytes (mem m) a
                     (take (sum_list (map snd (take n (write_plan dev a (of_nat (length buf))))))
                        buf)))
       \<and> (every_blob_fails (Some dev) entries m (of_nat payload_start) \<longrightarrow>
            (\<exists>mp. process_camera_parameters (Some dev) m ''camera_parameters'' (Some entries)
                     = Some (0, [], mp)
               \<and> write_files (Some dev) m (Some entries)
                     = Some (EXIT_FAILURE, snd (at24c256_deinit (Some dev) mp))
               \<and> mem (snd (at24c256_deinit (Some dev) mp)) = mem mp
               \<and> (\<forall>x. unat x < payload_start \<longrightarrow> mem mp x = mem m x)))"
proof (intro conjI impI)
  assume big: "\<not> passed_over e \<and> contents e = Some buf \<and> length buf > MAX_FILE_SIZE"
  then have b: "\<not> passed_over e" "contents e = Some buf" "length buf > MAX_FILE_SIZE"
    by simp_all
  have eq: "process_entries (Some dev) d' (pre @ e # rest) m files' a'
              = process_entries (Some dev) d' (pre @ rest) m files' a'" for d' files' a'
    by (rule process_entries_too_large[OF b])
  show "process_entries (Some dev) d (pre @ e # rest) m files a
          = process_entries (Some dev) d (pre @ rest) m files a"
    by (rule eq)
  show "write_files (Some dev) m (Some (pre @ e # rest))
          = write_files (Some dev) m (Some (pre @ rest))"
    by (simp only: write_files_def process_camera_parameters_def option.case eq)
next
  assume f: "\<not> passed_over e \<and> contents e = Some buf \<and> length buf \<le> MAX_FILE_SIZE
            \<and> \<not> heap_exhausted m
            \<and> at24c256_write (Some dev) m a (Some buf) (of_nat (length buf)) = Some (ret, m1)
            \<and> ret \<noteq> AT24C256_OK"
  then have b: "\<not> passed_over e" "contents e = Some buf" "length buf \<le> MAX_FILE_SIZE"
    "\<not> heap_exhausted m"
    "at24c256_write (Some dev) m a (Some buf) (of_nat (length buf)) = Some (ret, m1)"
    "ret \<noteq> AT24C256_OK"
    by simp_all
  have eq: "process_entries (Some dev) d' (e # rest) m files' a
              = process_entries (Some dev) d' rest m1 files' a" for d' files'
    by (rule process_entries_failed_write[OF b])
  show "process_entries (Some dev) d (e # rest) m files a
          = process_entries (Some dev) d rest m1 files a"
    by (rule eq)
  show "\<exists>n evs. trace m1 = trace m @ evs
          \<and> tx_chunks evs = take n (write_plan dev a (of_nat (length buf)))
          \<and> mem m1 = store_bytes (mem m) a
               (take (sum_list (map snd (take n (write_plan dev a (of_nat (length buf)))))) buf)"
    by (rule at24c256_write_partial[OF b(5) assms])
  assume a: "a = of_nat payload_start"
  have st: "EEPROM_START_ADDRESS + of_nat sizeof_index_header_t
              + of_nat (MAX_FILES * sizeof_file_index_t) = a"
    by (simp add: a payload_start_def EEPROM_START_ADDRESS_def)
  show "write_files (Some dev) m (Some (e # rest)) = write_files (Some dev) m1 (Some rest)"
    by (simp only: write_files_def process_camera_parameters_def option.case st eq)
next
  assume "every_blob_fails (Some dev) entries m (of_nat payload_start)"
  from process_entries_all_fail[OF this assms, of "''camera_parameters''" "[]"]
  obtain mp where p: "process_entries (Some dev) ''camera_parameters'' entries m []
                        (of_nat payload_start) = Some ([], mp)"
    and same: "\<forall>x. unat x < unat (of_nat payload_start :: u16) \<longrightarrow> mem mp x = mem m x"
    by blast
  have pc: "process_camera_parameters (Some dev) m ''camera_parameters'' (Some entries)
              = Some (0, [], mp)"
    using p
    by (simp add: process_camera_parameters_def payload_start_def EEPROM_START_ADDRESS_def)
  have "mem (snd (at24c256_deinit (Some dev) mp)) = mem mp"
    by (simp add: at24c256_deinit_def)
  then show "\<exists>mp. process_camera_parameters (Some dev) m ''camera_parameters'' (Some entries)
                     = Some (0, [], mp)
               \<and> write_files (Some dev) m (Some entries)
                     = Some (EXIT_FAILURE, snd (at24c256_deinit (Some dev) mp))
               \<and> mem (snd (at24c256_deinit (Some dev) mp)) = mem mp
               \<and> (\<forall>x. unat x < payload_start \<longrightarrow> mem mp x = mem m x)"
    using pc same by (auto simp: write_files_def payload_start_value)
qed

lemma blobs_not_passed_over:
  "\<not> passed_over big_blob" "\<not> passed_over torn_blob" "\<not> passed_over small_blob"
  by (simp_all add: passed_over_def big_blob_def torn_blob_def small_blob_def extension_def)

lemma blob_contents:
  "contents big_blob = Some (replicate 32769 0)" "contents torn_blob = Some (replicate 20 7)"
  "contents small_blob = Some [4, 5]" "d_name small_blob = ''b.dat''"
  by (simp_all add: big_blob_def torn_blob_def small_blob_def)

lemma flaky_fields:
  "heap_exhausted flaky_machine = False" "dev_page flaky_machine = 64"
  by (simp_all add: flaky_machine_def blank_fields)

lemma torn_every_blob_fails:
  "every_blob_fails (Some default_dev) [big_blob, torn_blob] flaky_machine (of_nat payload_start)"
  by (simp add: payload_start_value blobs_not_passed_over blob_contents MAX_FILE_SIZE_def
      flaky_fields torn_write)

theorem write_files_failed_blob_witness:
  "dev_page blank_machine = unat (page_size (config default_dev))
   \<and> dev_page flaky_machine = unat (page_size (config default_dev))
   \<and> unat (total_size (config default_dev)) \<le> 65536
   \<and> \<not> passed_over big_blob \<and> contents big_blob = Some (replicate 32769 0)
   \<and> length (replicate 32769 (0 :: u8)) > MAX_FILE_SIZE
   \<and> process_entries (Some default_dev) ''camera_parameters'' [big_blob] blank_machine
         [file_a] 1139 = Some ([file_a], blank_machine)
   \<and> \<not> passed_over torn_blob \<and> contents torn_blob = Some (replicate 20 7)
   \<and> length (replicate 20 (7 :: u8)) \<le> MAX_FILE_SIZE \<and> \<not> heap_exhausted flaky_machine
   \<and> map_option fst (at24c256_write (Some default_dev) flaky_machine 1136
                        (Some (replicate 20 7)) 20) = Some AT24C256_ERROR_WRITE
   \<and> AT24C256_ERROR_WRITE \<noteq> AT24C256_OK
   \<and> map_option fst (write_files (Some default_dev) flaky_machine (Some [torn_blob]))
       = Some EXIT_FAILURE
   \<and> map (mem (snd (the (write_files (Some default_dev) flaky_machine (Some [torn_blob])))))
         [1136, 1151, 1152] = [7, 7, 0xFF]
   \<and> every_blob_fails (Some default_dev) [big_blob, torn_blob] flaky_machine
         (of_nat payload_start)
   \<and> map_option fst (write_files (Some default_dev) flaky_machine (Some [big_blob, torn_blob]))
       = Some EXIT_FAILURE
   \<and> map (mem (snd (the (write_files (Some default_dev) flaky_machine
                              (Some [big_blob, torn_blob]))))) [0, 1, 2, 3]
       = map (mem flaky_machine) [0, 1, 2, 3]"
proof -
  have dpb: "dev_page blank_machine = unat (page_size (config default_dev))"
    by (simp add: blank_fields default_fields)
  have dp: "dev_page flaky_machine = unat (page_size (config default_dev))"
    by (simp add: flaky_fields default_fields)
  have ts: "unat (total_size (config default_dev)) \<le> 65536"
    by (simp add: default_fields)
  have big: "\<not> passed_over big_blob \<and> contents big_blob = Some (replicate 32769 0)
             \<and> length (replicate 32769 (0 :: u8)) > MAX_FILE_SIZE"
    by (simp add: blobs_not_passed_over blob_contents MAX_FILE_SIZE_def)
  from write_files_failed_blob[OF dpb ts, where e = big_blob and buf = "replicate 32769 0"
      and d = "''camera_parameters''" and pre = "[]" and rest = "[]" and files = "[file_a]"
      and a = 1139] big
  have p1: "process_entries (Some default_dev) ''camera_parameters'' [big_blob] blank_machine
              [file_a] 1139 = Some ([file_a], blank_machine)"
    by simp
  define m2 where "m2 = consume (I2C_write (addr_hi 1152 # addr_lo 1152 # replicate 4 7) False)
           (after_chunk default_dev flaky_machine 1136 (replicate 16 7))"
  have w2: "at24c256_write (Some default_dev) flaky_machine 1136 (Some (replicate 20 7)) 20
              = Some (AT24C256_ERROR_WRITE, m2)"
    by (simp add: torn_write m2_def)
  have torn: "\<not> passed_over torn_blob \<and> contents torn_blob = Some (replicate 20 7)
              \<and> length (replicate 20 (7 :: u8)) \<le> MAX_FILE_SIZE \<and> \<not> heap_exhausted flaky_machine
              \<and> at24c256_write (Some default_dev) flaky_machine 1136 (Some (replicate 20 7))
                    (of_nat (length (replicate 20 (7 :: u8)))) = Some (AT24C256_ERROR_WRITE, m2)
              \<and> AT24C256_ERROR_WRITE \<noteq> AT24C256_OK"
    by (simp add: blobs_not_passed_over blob_contents MAX_FILE_SIZE_def flaky_fields w2)
  have "write_files (Some default_dev) flaky_machine (Some [torn_blob])
          = write_files (Some default_dev) m2 (Some [])"
    and "\<exists>n evs. trace m2 = trace flaky_machine @ evs
          \<and> tx_chunks evs = take n (write_plan default_dev 1136 20)
          \<and> mem m2 = store_bytes (mem flaky_machine) 1136
               (take (sum_list (map snd (take n (write_plan default_dev 1136 20))))
                  (replicate 20 7))"
    using write_files_failed_blob[OF dp ts, where e = torn_blob and buf = "replicate 20 7"
        and a = 1136 and ret = AT24C256_ERROR_WRITE and ?m1.0 = m2 and rest = "[]"] torn
    by (simp_all add: payload_start_value)
  then obtain n evs where wf2: "write_files (Some default_dev) flaky_machine (Some [torn_blob])
          = Some (EXIT_FAILURE, snd (at24c256_deinit (Some default_dev) m2))"
    and tr: "trace m2 = trace flaky_machine @ evs"
    and tx: "tx_chunks evs = take n (write_plan default_dev 1136 20)"
    and mm: "mem m2 = store_bytes (mem flaky_machine) 1136
               (take (sum_list (map snd (take n (write_plan default_dev 1136 20))))
                  (replicate 20 7))"
    by (auto simp: write_files_def process_camera_parameters_def)
  note plan = plan_1136_20
  have "evs = [I2C_write (addr_hi 1136 # addr_lo 1136 # replicate 16 7) True, Usleep 5000,
               I2C_write (addr_hi 1152 # addr_lo 1152 # replicate 4 7) False]"
    using tr by (simp add: m2_def consume_def after_chunk_fields flaky_machine_def blank_fields
        default_fields)
  moreover have "replicate 16 (7 :: u8) = 7 # replicate 15 7"
    by (simp add: numeral_eq_Suc)
  ultimately have "tx_chunks evs = [(1136, 16)]"
    by (simp add: addr_bytes)
  with tx have "n = 1"
    by (cases n; cases "n - 1") (simp_all add: plan)
  with mm have mem2: "mem m2 = store_bytes (mem flaky_machine) 1136 (replicate 16 7)"
    by (simp add: plan)
  have c1: "mem m2 1136 = 7"
    using store_bytes_nth[of "replicate 16 (7 :: u8)" 0 "mem flaky_machine" 1136]
    by (simp add: mem2)
  have c2: "mem m2 1151 = 7"
    using store_bytes_nth[of "replicate 16 (7 :: u8)" 15 "mem flaky_machine" 1136]
    by (simp add: mem2)
  have c3: "mem m2 1152 = 0xFF"
  proof -
    have "store_bytes (mem flaky_machine) 1136 (replicate 16 7) 1152 = mem flaky_machine 1152"
    proof (rule store_bytes_outside)
      fix j assume "j < length (replicate 16 (7 :: u8))"
      then have "unat (1136 + of_nat j :: u16) = unat (1136 :: u16) + j"
        by (intro unat_add_small) simp
      then show "(1152 :: u16) \<noteq> 1136 + of_nat j"
        using \<open>j < length (replicate 16 (7 :: u8))\<close> by auto
    qed
    then show ?thesis by (simp add: mem2 flaky_machine_def blank_machine_def)
  qed
  have d2: "mem (snd (at24c256_deinit (Some default_dev) m2)) = mem m2"
    by (simp add: at24c256_deinit_def)
  from write_files_failed_blob[OF dp ts, where entries = "[big_blob, torn_blob]"]
    torn_every_blob_fails
  obtain mp where
    w: "write_files (Some default_dev) flaky_machine (Some [big_blob, torn_blob])
          = Some (EXIT_FAILURE, snd (at24c256_deinit (Some default_dev) mp))"
    and d: "mem (snd (at24c256_deinit (Some default_dev) mp)) = mem mp"
    and s: "\<forall>x. unat x < payload_start \<longrightarrow> mem mp x = mem flaky_machine x"
    by blast
  have "\<forall>x \<in> {0, 1, 2, 3 :: u16}. unat x < payload_start"
    by (simp add: payload_start_value)
  then have low: "map (mem (snd (the (write_files (Some default_dev) flaky_machine
                              (Some [big_blob, torn_blob]))))) [0, 1, 2, 3]
       = map (mem flaky_machine) [0, 1, 2, 3]"
    using w d s by simp
  show ?thesis
    using dpb dp ts big p1 torn w2 wf2 d2 c1 c2 c3 torn_every_blob_fails w low
    by simp
qed

lemma name_field_length: "length (name_field name) = 64"
  by (simp add: name_field_def Let_def MAX_FILENAME_LENGTH_def)

lemma entry_bytes_length: "length (filename f) = 64 \<Longrightarrow> length (entry_bytes f) = 70"
  by (simp add: entry_bytes_def u16_bytes_def)

lemma write_index_entries_good:
  assumes "initialized dev" "page_size (config dev) \<noteq> 0"
    and "script m = []" "dev_page m = unat (page_size (config dev))"
    and "\<forall>f \<in> set files. length (filename f) = 64"
    and "unat a + 70 * length files \<le> unat (total_size (config dev))"
  shows "\<exists>m'. write_index_entries (Some dev) m files a = Some (0, m')
           \<and> mem m' = store_bytes (mem m) a (concat (map entry_bytes files))
           \<and> script m' = [] \<and> dev_page m' = dev_page m"
  using assms(3-)
proof (induction files arbitrary: m a)
  case Nil
  then show ?case by simp
next
  case (Cons f files)
  have l: "length (entry_bytes f) = 70"
    using Cons.prems(3) by (simp add: entry_bytes_length)
  have chk: "check_address_length (Some dev) a 70 = AT24C256_OK"
    using assms(1) Cons.prems(4) by (simp add: check_address_length_OK)
  have "unat (70 :: u16) \<le> length (entry_bytes f)" by (simp add: l)
  from at24c256_write_good[OF chk assms(2) Cons.prems(1,2) this]
  obtain m1 where w: "at24c256_write (Some dev) m a (Some (entry_bytes f)) 70 = Some (AT24C256_OK, m1)"
    and mm: "mem m1 = store_bytes (mem m) a (entry_bytes f)" and s1: "script m1 = []"
    and dp1: "dev_page m1 = dev_page m"
    by (auto simp: l)
  have "unat (a + 70) \<le> unat a + 70"
    using unat_add_le_u16[of a 70] by simp
  then have rng: "unat (a + 70) + 70 * length files \<le> unat (total_size (config dev))"
    using Cons.prems(4) by simp
  have "\<forall>f \<in> set files. length (filename f) = 64" using Cons.prems(3) by simp
  from Cons.IH[OF s1 _ this rng] dp1 Cons.prems(2)
  obtain m' where "write_index_entries (Some dev) m1 files (a + 70) = Some (0, m')"
    and "mem m' = store_bytes (mem m1) (a + 70) (concat (map entry_bytes files))"
    and "script m' = []" and "dev_page m' = dev_page m1" by auto
  then show ?case
    using w mm dp1 l
    by (simp add: sizeof_file_index_t_def store_bytes_append)
qed

lemma write_file_index_good:
  assumes "initialized dev" "page_size (config dev) \<noteq> 0"
    and "script m = []" "dev_page m = unat (page_size (config dev))"
    and "\<forall>f \<in> set files. length (filename f) = 64"
    and "16 + 70 * length files \<le> unat (total_size (config dev))"
  shows "\<exists>m'. write_file_index (Some dev) m files = Some (0, m')
           \<and> mem m' = store_bytes
                (store_bytes (mem m) 0
                   (header_bytes \<lparr>magic = CAM_magic, version = 1,
                      file_count = of_nat (length files),
                      index_total_size = foldl (\<lambda>total f. total + fsize f) 0 files,
                      reserved = replicate 8 0\<rparr>))
                16 (concat (map entry_bytes files))
           \<and> script m' = []"
proof -
  let ?h = "\<lparr>magic = CAM_magic, version = 1, file_count = of_nat (length files),
             index_total_size = foldl (\<lambda>total f. total + fsize f) 0 files,
             reserved = replicate 8 0\<rparr>"
  have hl: "length (magic ?h) = 4" "length (reserved ?h) = 8"
    by (simp_all add: CAM_magic_def)
  have chk: "check_address_length (Some dev) 0 16 = AT24C256_OK"
    using assms(1,6) by (simp add: check_address_length_OK)
  have len: "unat (16 :: u16) \<le> length (header_bytes ?h)"
    by (simp add: header_bytes_length[OF hl])
  from at24c256_write_good[OF chk assms(2,3,4) len]
  obtain m1 where w: "at24c256_write (Some dev) m 0 (Some (header_bytes ?h)) 16
                        = Some (AT24C256_OK, m1)"
    and mm: "mem m1 = store_bytes (mem m) 0 (header_bytes ?h)"
    and s1: "script m1 = []" and dp1: "dev_page m1 = dev_page m"
    using header_bytes_length[OF hl] by auto
  have rng: "unat (16 :: u16) + 70 * length files \<le> unat (total_size (config dev))"
    using assms(6) by simp
  from write_index_entries_good[OF assms(1,2) s1 _ assms(5) rng] dp1 assms(4)
  obtain m' where "write_index_entries (Some dev) m1 files 16 = Some (0, m')"
    and "mem m' = store_bytes (mem m1) 16 (concat (map entry_bytes files))"
    and "script m' = []" by auto
  then show ?thesis
    using w mm
    by (simp add: write_file_index_def Let_def EEPROM_START_ADDRESS_def
        sizeof_index_header_t_def)
qed

lemma store_small_blob:
  "\<exists>m1. at24c256_write (Some default_dev) blank_machine 1136 (Some [4, 5]) 2
            = Some (AT24C256_OK, m1)
        \<and> script m1 = [] \<and> dev_page m1 = 64 \<and> heap_exhausted m1 = False"
proof -
  have chk: "check_address_length (Some default_dev) 1136 2 = AT24C256_OK"
    by (simp add: check_address_length_OK default_fields)
  from at24c256_write_good[OF chk, of blank_machine "[4, 5]"]
  show ?thesis
    by (auto simp: default_fields blank_fields)
qed

text \<open>
  The claim as the specification words it fails: a blob that cannot be stored is passed by
  and the operation goes on. With a first file of 32769 bytes (more than
  \<open>MAX_FILE_SIZE\<close>) and a second of 2 bytes, \<open>write_files\<close> returns \<open>EXIT_SUCCESS\<close>
  and the directory is on the device: magic, version 1, one entry.
\<close>

theorem write_files_skips_failed_blob:
  "length (the (contents big_blob)) > MAX_FILE_SIZE
   \<and> map_option fst (write_files (Some default_dev) blank_machine (Some [big_blob, small_blob]))
       = Some EXIT_SUCCESS
   \<and> map (mem (snd (the (write_files (Some default_dev) blank_machine
                              (Some [big_blob, small_blob]))))) [0, 1, 2, 3, 4, 5]
       = [0x43, 0x41, 0x4D, 0x00, 1, 1]"
proof -
  define fi where "fi = \<lparr>filename = name_field (basename (take 511 (''camera_parameters'' @ ''/'' @ ''b.dat''))),
              address = 1136, fsize = 2, checksum = calculate_checksum [4, 5]\<rparr>"
  define h where "h = \<lparr>magic = CAM_magic, version = 1, file_count = of_nat (length [fi]),
             index_total_size = foldl (\<lambda>total f. total + fsize f) 0 [fi],
             reserved = replicate 8 0\<rparr>"
  from store_small_blob obtain m1
    where w: "at24c256_write (Some default_dev) blank_machine 1136 (Some [4, 5]) 2
                = Some (AT24C256_OK, m1)"
      and s1: "script m1 = []" and dp1: "dev_page m1 = 64" and h1: "heap_exhausted m1 = False"
    by blast
  define m1' where "m1' = usleep 1000000 m1"
  have p: "process_camera_parameters (Some default_dev) blank_machine ''camera_parameters''
             (Some [big_blob, small_blob]) = Some (1, [fi], m1')"
    using w
    by (simp add: process_camera_parameters_def EEPROM_START_ADDRESS_def
        sizeof_index_header_t_def MAX_FILES_def sizeof_file_index_t_def
        process_entries_Cons blobs_not_passed_over write_file_to_eeprom_def
        blob_contents MAX_FILE_SIZE_def blank_fields fi_def m1'_def
        del: process_entries.simps(2))
  have s: "script m1' = []" "dev_page m1' = unat (page_size (config default_dev))"
    using s1 dp1 by (simp_all add: usleep_def default_fields m1'_def)
  have fl: "\<forall>f \<in> set [fi]. length (filename f) = 64"
    by (simp add: name_field_length fi_def)
  have ps: "page_size (config default_dev) \<noteq> 0"
    and rng: "16 + 70 * length [fi] \<le> unat (total_size (config default_dev))"
    by (simp_all add: default_fields)
  from write_file_index_good[OF default_fields(3) ps s fl rng]
  obtain m3 where wi: "write_file_index (Some default_dev) m1' [fi] = Some (0, m3)"
    and mm: "mem m3 = store_bytes (store_bytes (mem m1') 0 (header_bytes h)) 16
                        (concat (map entry_bytes [fi]))"
    unfolding h_def by blast
  have res: "write_files (Some default_dev) blank_machine (Some [big_blob, small_blob])
          = Some (EXIT_SUCCESS, snd (at24c256_deinit (Some default_dev) m3))"
    using p wi by (simp add: write_files_def)
  have hb: "header_bytes h = [0x43, 0x41, 0x4D, 0x00, 1, 1] @ u16_bytes 2 @ replicate 8 0"
    by (simp add: header_bytes_def CAM_magic_def h_def fi_def)
  have hlen: "length (header_bytes h) = 16"
    by (simp add: hb u16_bytes_def)
  have el: "length (entry_bytes fi) = 70"
    using fl by (simp add: entry_bytes_length)
  have low: "mem m3 x = store_bytes (mem m1') 0 (header_bytes h) x" if "unat x < 16" for x
    unfolding mm
    by (rule store_bytes_below) (use that in \<open>simp_all add: el\<close>)
  have nth: "store_bytes (mem m1') 0 (header_bytes h) (0 + of_nat i) = header_bytes h ! i"
    if "i < 16" for i
    by (rule store_bytes_nth) (use that in \<open>simp_all add: hlen\<close>)
  have "mem m3 0 = 0x43" "mem m3 1 = 0x41" "mem m3 2 = 0x4D" "mem m3 3 = 0"
    "mem m3 4 = 1" "mem m3 5 = 1"
    using nth[of 0] nth[of 1] nth[of 2] nth[of 3] nth[of 4] nth[of 5]
    by (simp_all add: low) (simp_all add: hb)
  moreover have "mem (snd (at24c256_deinit (Some default_dev) m3)) = mem m3"
    by (simp add: at24c256_deinit_def)
  ultimately show ?thesis
    by (simp add: res blob_contents MAX_FILE_SIZE_def)
qed

section \<open>The file index: reading and the checksum\<close>

lemma checksum_values: "calculate_checksum [1, 2, 3] = 0" "calculate_checksum [4, 5] = 1"
  by (simp_all add: calculate_checksum_def)

lemma foldl_xor_start:
  "foldl (\<lambda>c b. c XOR b) c0 xs = c0 XOR foldl (\<lambda>c b. c XOR b) (0 :: u8) xs"
proof (induction xs arbitrary: c0)
  case Nil
  then show ?case by simp
next
  case (Cons y ys)
  have "foldl (\<lambda>c b. c XOR b) (c0 XOR y) ys = (c0 XOR y) XOR foldl (\<lambda>c b. c XOR b) 0 ys"
    by (rule Cons.IH)
  moreover have "foldl (\<lambda>c b. c XOR b) (0 XOR y) ys = y XOR foldl (\<lambda>c b. c XOR b) 0 ys"
    using Cons.IH[of "0 XOR y"] by simp
  ultimately show ?case by (simp add: xor.assoc)
qed

lemma checksum_Cons: "calculate_checksum (y # ys) = y XOR calculate_checksum ys"
  using foldl_xor_start[of y ys] by (simp add: calculate_checksum_def)

lemma checksum_update:
  "i < length xs \<Longrightarrow> calculate_checksum (xs[i := v]) = calculate_checksum xs XOR xs ! i XOR v"
proof (induction xs arbitrary: i)
  case Nil
  then show ?case by simp
next
  case (Cons y ys)
  show ?case
  proof (cases i)
    case 0
    have "v XOR calculate_checksum ys = (y XOR calculate_checksum ys) XOR y XOR v"
      by (simp add: xor.assoc xor.left_commute xor.commute)
    then show ?thesis using 0 by (simp add: checksum_Cons)
  next
    case (Suc j)
    then have "calculate_checksum (ys[j := v]) = calculate_checksum ys XOR ys ! j XOR v"
      using Cons.prems by (intro Cons.IH) simp
    then show ?thesis using Suc by (simp add: checksum_Cons xor.assoc)
  qed
qed

lemma xor_changes: "(v :: u8) \<noteq> w \<Longrightarrow> c XOR w XOR v \<noteq> c"
  by (metis bit.xor_left_self xor_self_eq)

lemma outcome_mem_update: "outcome (m\<lparr>mem := c\<rparr>) = outcome m"
  by (simp add: outcome_def)

lemma at24c256_read_mem_update:
  "at24c256_read handle (m\<lparr>mem := c\<rparr>) a rbuf len =
     (case at24c256_read handle m a rbuf len of
        (r, out, m2) \<Rightarrow>
          (r, if r = AT24C256_OK then Some (map (\<lambda>i. c (a + of_nat i)) [0..<unat len]) else out,
           m2\<lparr>mem := c\<rparr>))"
proof (cases "check_address_length handle a len = AT24C256_OK \<and> rbuf \<noteq> None")
  case False
  then show ?thesis
    by (auto simp: at24c256_read_def Let_def)
next
  case True
  show ?thesis
  proof (cases "outcome m")
    case False
    then show ?thesis
      using True
      by (simp add: at24c256_read_def Let_def i2c_write_fail outcome_mem_update consume_def)
  next
    case True
    note ok = this
    have ok': "outcome (m\<lparr>mem := c\<rparr>)" using ok by (simp add: outcome_mem_update)
    have neq: "- 1 \<noteq> uint len"
      using uint_ge_0[of len] by arith
    show ?thesis
      using \<open>check_address_length handle a len = AT24C256_OK \<and> rbuf \<noteq> None\<close>
      by (simp add: neq at24c256_read_def Let_def i2c_set_pointer[OF ok] i2c_set_pointer[OF ok']
          i2c_read_def consume_def outcome_def)
  qed
qed

lemma of_nat_u16_inj:
  assumes "i < 65536" "k < 65536" "(a :: u16) + of_nat i = a + of_nat k"
  shows "i = k"
proof -
  from assms(3) have "(of_nat i :: u16) = of_nat k" by simp
  then have "unat (of_nat i :: u16) = unat (of_nat k :: u16)" by simp
  then show ?thesis using assms(1,2) by (simp add: unat_of_nat_u16)
qed

lemma read_buffer_hit:
  fixes a :: u16
  assumes "k < n" "n \<le> 65536"
  shows "map (\<lambda>i. (cells(a + of_nat k := v)) (a + of_nat i)) [0..<n]
         = (map (\<lambda>i. cells (a + of_nat i)) [0..<n])[k := v]"
proof (rule nth_equalityI)
  show "length (map (\<lambda>i. (cells(a + of_nat k := v)) (a + of_nat i)) [0..<n])
        = length ((map (\<lambda>i. cells (a + of_nat i)) [0..<n])[k := v])"
    by simp
next
  fix i assume "i < length (map (\<lambda>i. (cells(a + of_nat k := v)) (a + of_nat i)) [0..<n])"
  then have i: "i < n" by simp
  have "a + of_nat i = a + of_nat k \<longleftrightarrow> i = k"
    using of_nat_u16_inj[of i k a] i assms by auto
  then show "map (\<lambda>i. (cells(a + of_nat k := v)) (a + of_nat i)) [0..<n] ! i
             = (map (\<lambda>i. cells (a + of_nat i)) [0..<n])[k := v] ! i"
    using i assms(1) by (auto simp: nth_list_update)
qed

lemma read_buffer_miss:
  fixes a :: u16
  assumes "\<And>i. i < n \<Longrightarrow> x \<noteq> a + of_nat i"
  shows "map (\<lambda>i. (cells(x := v)) (a + of_nat i)) [0..<n] = map (\<lambda>i. cells (a + of_nat i)) [0..<n]"
proof (rule map_cong[OF refl])
  fix i assume "i \<in> set [0..<n]"
  then have "i < n" by simp
  from assms[OF this] show "(cells(x := v)) (a + of_nat i) = cells (a + of_nat i)"
    by simp
qed

lemma read_file_saved_D:
  assumes "read_file_from_eeprom handle m f dir fs = Some (File_saved p bs, m1)"
  shows "0 \<in> set (filename f)" "\<not> heap_exhausted m"
    "at24c256_read handle m (address f) (Some []) (fsize f) = (AT24C256_OK, Some bs, m1)"
    "calculate_checksum bs = checksum f"
    "p = take 511 (dir @ ''/'' @ map (\<lambda>b. char_of (unat b)) (c_str (filename f)))"
    "fs p = Out_ok"
proof -
  from assms show z: "0 \<in> set (filename f)" and h: "\<not> heap_exhausted m"
    by (auto simp: read_file_from_eeprom_def Let_def split: if_splits)
  obtain r out m2 where rd: "at24c256_read handle m (address f) (Some []) (fsize f) = (r, out, m2)"
    by (metis prod.collapse)
  from assms z h rd
  have all: "r = AT24C256_OK \<and> out = Some bs \<and> m2 = m1 \<and> calculate_checksum bs = checksum f
        \<and> p = take 511 (dir @ ''/'' @ map (\<lambda>b. char_of (unat b)) (c_str (filename f)))
        \<and> fs p \<noteq> Out_fopen_fails \<and> fs p \<noteq> Out_fwrite_short"
    by (auto simp: read_file_from_eeprom_def Let_def split: option.splits if_splits)
  then show "at24c256_read handle m (address f) (Some []) (fsize f) = (AT24C256_OK, Some bs, m1)"
    "calculate_checksum bs = checksum f"
    "p = take 511 (dir @ ''/'' @ map (\<lambda>b. char_of (unat b)) (c_str (filename f)))"
    using rd by simp_all
  from all show "fs p = Out_ok" by (cases "fs p") simp_all
qed

lemma read_file_after_mutation:
  assumes "read_file_from_eeprom handle m f dir fs = Some (File_saved p bs, m1)"
    and "v \<noteq> mem m x"
  shows "read_file_from_eeprom handle (m\<lparr>mem := (mem m)(x := v)\<rparr>) f dir fs
         = Some (if in_payload f x
                 then Checksum_failed (checksum f) (checksum f XOR mem m x XOR v)
                 else File_saved p bs,
                 m1\<lparr>mem := (mem m)(x := v)\<rparr>)"
    and "mem m1 = mem m" and "checksum f XOR mem m x XOR v \<noteq> checksum f"
proof -
  note d = read_file_saved_D[OF assms(1)]
  let ?n = "unat (fsize f)"
  let ?a = "address f"
  have bs: "bs = map (\<lambda>i. mem m (?a + of_nat i)) [0..<?n]"
    using at24c256_read_OK_D(1)[OF d(3)] by simp
  show mm: "mem m1 = mem m" by (rule at24c256_read_OK_D(2)[OF d(3)])
  show ne: "checksum f XOR mem m x XOR v \<noteq> checksum f"
    using assms(2) by (rule xor_changes)
  have n16: "?n \<le> 65536" using unsigned_less[of "fsize f", where 'a=nat] by simp
  have rd: "at24c256_read handle (m\<lparr>mem := (mem m)(x := v)\<rparr>) ?a (Some []) (fsize f)
            = (AT24C256_OK, Some (map (\<lambda>i. ((mem m)(x := v)) (?a + of_nat i)) [0..<?n]),
               m1\<lparr>mem := (mem m)(x := v)\<rparr>)"
    by (simp add: at24c256_read_mem_update d(3))
  show "read_file_from_eeprom handle (m\<lparr>mem := (mem m)(x := v)\<rparr>) f dir fs
         = Some (if in_payload f x
                 then Checksum_failed (checksum f) (checksum f XOR mem m x XOR v)
                 else File_saved p bs,
                 m1\<lparr>mem := (mem m)(x := v)\<rparr>)"
  proof (cases "in_payload f x")
    case True
    then obtain k where k: "k < ?n" "x = ?a + of_nat k"
      by (auto simp: in_payload_def)
    have "map (\<lambda>i. ((mem m)(x := v)) (?a + of_nat i)) [0..<?n] = bs[k := v]"
      unfolding bs k(2) by (rule read_buffer_hit[OF k(1) n16])
    moreover have "calculate_checksum (bs[k := v]) = checksum f XOR mem m x XOR v"
      using checksum_update[of k bs v] k by (simp add: bs d(4)[unfolded bs])
    ultimately show ?thesis
      using True d(1,2) ne
      by (simp add: read_file_from_eeprom_def Let_def rd)
  next
    case False
    then have "map (\<lambda>i. ((mem m)(x := v)) (?a + of_nat i)) [0..<?n] = bs"
      unfolding bs by (intro read_buffer_miss) (auto simp: in_payload_def)
    then show ?thesis
      using False d
      by (simp add: read_file_from_eeprom_def Let_def rd)
  qed
qed

lemma read_result_0: "read_result r = 0 \<longleftrightarrow> (\<exists>p bs. r = File_saved p bs)"
  by (cases r) simp_all

lemma read_outcomes_after_mutation:
  assumes "read_outcomes handle m files dir fs = Some outs"
    and "\<forall>r \<in> set outs. read_result r = 0" and "v \<noteq> mem m x"
  shows "read_outcomes handle (m\<lparr>mem := (mem m)(x := v)\<rparr>) files dir fs
         = Some (map2 (\<lambda>f r. if in_payload f x
                               then Checksum_failed (checksum f) (checksum f XOR mem m x XOR v)
                               else r) files outs)
       \<and> length outs = length files"
  using assms
proof (induction files arbitrary: m outs)
  case Nil
  then show ?case by simp
next
  case (Cons f files)
  from Cons.prems(1) obtain r m1 outs'
    where rf: "read_file_from_eeprom handle m f dir fs = Some (r, m1)"
      and ro: "read_outcomes handle m1 files dir fs = Some outs'" and o: "outs = r # outs'"
    by (auto split: option.splits)
  from Cons.prems(2) o obtain p bs where r: "r = File_saved p bs"
    by (auto simp: read_result_0)
  note mut = read_file_after_mutation[OF rf[unfolded r] Cons.prems(3)]
  have m1: "m1\<lparr>mem := (mem m)(x := v)\<rparr> = m1\<lparr>mem := (mem m1)(x := v)\<rparr>"
    by (simp add: mut(2))
  have "\<forall>r \<in> set outs'. read_result r = 0" "v \<noteq> mem m1 x"
    using Cons.prems(2,3) o by (simp_all add: mut(2))
  from Cons.IH[OF ro this]
  have IH: "read_outcomes handle (m1\<lparr>mem := (mem m1)(x := v)\<rparr>) files dir fs
         = Some (map2 (\<lambda>f r. if in_payload f x
                               then Checksum_failed (checksum f) (checksum f XOR mem m x XOR v)
                               else r) files outs')"
    and len: "length outs' = length files"
    by (simp_all only: mut(2))
  have "read_outcomes handle (m\<lparr>mem := (mem m)(x := v)\<rparr>) (f # files) dir fs
        = map_option ((#) (if in_payload f x
                 then Checksum_failed (checksum f) (checksum f XOR mem m x XOR v)
                 else File_saved p bs))
            (read_outcomes handle (m1\<lparr>mem := (mem m1)(x := v)\<rparr>) files dir fs)"
    by (simp only: read_outcomes.simps mut(1) m1 option.case prod.case)
  then have "read_outcomes handle (m\<lparr>mem := (mem m)(x := v)\<rparr>) (f # files) dir fs
        = Some (map2 (\<lambda>f r. if in_payload f x
                               then Checksum_failed (checksum f) (checksum f XOR mem m x XOR v)
                               else r) (f # files) (File_saved p bs # outs'))"
    by (simp only: IH option.map zip_Cons_Cons list.map prod.case)
  then show ?case
    using len by (simp only: o r) simp
qed

lemma read_files_count:
  "read_outcomes handle m files dir fs = Some outs \<Longrightarrow>
     map_option fst (read_files handle m files dir fs c)
       = Some (c + length (filter (\<lambda>r. read_result r = 0) outs))"
proof (induction files arbitrary: m outs c)
  case Nil
  then show ?case by simp
next
  case (Cons f files)
  from Cons.prems obtain r m1 outs'
    where rf: "read_file_from_eeprom handle m f dir fs = Some (r, m1)"
      and ro: "read_outcomes handle m1 files dir fs = Some outs'" and o: "outs = r # outs'"
    by (auto split: option.splits)
  show ?case
  proof (cases "read_result r = 0")
    case True
    then show ?thesis
      using Cons.IH[OF ro, of "c + 1"] by (simp add: rf o)
  next
    case False
    then show ?thesis
      using Cons.IH[OF ro, of c] by (simp add: rf o)
  qed
qed

lemma filter_all_but_one:
  assumes "\<forall>r \<in> set outs. P r" "k < length outs" "\<not> P y"
  shows "length (filter P (outs[k := y])) = length outs - 1"
proof -
  have "outs[k := y] = take k outs @ y # drop (Suc k) outs"
    using assms(2) by (rule upd_conv_take_nth_drop)
  moreover have "filter P (take k outs) = take k outs" "filter P (drop (Suc k) outs) = drop (Suc k) outs"
    using assms(1) by (auto simp: filter_id_conv dest: in_set_takeD in_set_dropD)
  ultimately show ?thesis
    using assms(2,3) by simp
qed

text \<open>
  C8. The checksum is the exclusive-or of all payload bytes starting from zero, so
  \<open>[1, 2, 3]\<close> has checksum 0 and \<open>[4, 5]\<close> has checksum 1. Let every file of a list of
  entries be read and saved successfully from a machine, and let one device byte, which is a
  payload byte of the file at position \<open>k\<close> and of no other file of the list, be changed to
  a different value. Then reading the same entries gives the same outcomes except at position
  \<open>k\<close>, where the outcome is the checksum failure (stored checksum against a recomputed one
  that differs from it); the loop of \<open>main\<close> counted every file as a success before and
  counts all but one after.
\<close>

theorem one_mutated_byte_one_checksum_failure:
  assumes "read_outcomes handle m files dir fs = Some outs"
    and "\<forall>r \<in> set outs. read_result r = 0"
    and "v \<noteq> mem m x" and "k < length files" and "in_payload (files ! k) x"
    and "\<forall>j < length files. j \<noteq> k \<longrightarrow> \<not> in_payload (files ! j) x"
  shows "calculate_checksum [] = 0
       \<and> calculate_checksum (data @ [b]) = calculate_checksum data XOR b
       \<and> calculate_checksum [1, 2, 3] = 0 \<and> calculate_checksum [4, 5] = 1
       \<and> read_outcomes handle (m\<lparr>mem := (mem m)(x := v)\<rparr>) files dir fs
           = Some (outs[k := Checksum_failed (checksum (files ! k))
                                 (checksum (files ! k) XOR mem m x XOR v)])
       \<and> checksum (files ! k) XOR mem m x XOR v \<noteq> checksum (files ! k)
       \<and> map_option fst (read_files handle m files dir fs 0) = Some (length files)
       \<and> map_option fst (read_files handle (m\<lparr>mem := (mem m)(x := v)\<rparr>) files dir fs 0)
           = Some (length files - 1)"
proof -
  let ?bad = "Checksum_failed (checksum (files ! k)) (checksum (files ! k) XOR mem m x XOR v)"
  let ?g = "\<lambda>f r. if in_payload f x
                  then Checksum_failed (checksum f) (checksum f XOR mem m x XOR v) else r"
  from read_outcomes_after_mutation[OF assms(1-3)]
  have mut: "read_outcomes handle (m\<lparr>mem := (mem m)(x := v)\<rparr>) files dir fs
               = Some (map2 ?g files outs)"
    and len: "length outs = length files" by simp_all
  have eq: "map2 ?g files outs = outs[k := ?bad]"
  proof (rule nth_equalityI)
    show "length (map2 ?g files outs) = length (outs[k := ?bad])"
      by (simp add: len)
  next
    fix i assume "i < length (map2 ?g files outs)"
    then have i: "i < length files" by (simp add: len)
    show "map2 ?g files outs ! i = outs[k := ?bad] ! i"
    proof (cases "i = k")
      case True
      then show ?thesis using i assms(5) by (simp add: len)
    next
      case False
      then have "\<not> in_payload (files ! i) x" using assms(6) i by blast
      then show ?thesis using i False by (simp add: len)
    qed
  qed
  have all: "filter (\<lambda>r. read_result r = 0) outs = outs"
    using assms(2) by (simp add: filter_id_conv)
  have c0: "map_option fst (read_files handle m files dir fs 0) = Some (length files)"
    using read_files_count[OF assms(1), of 0] by (simp add: all len)
  have "length (filter (\<lambda>r. read_result r = 0) (outs[k := ?bad])) = length outs - 1"
    by (rule filter_all_but_one) (use assms(2,4) in \<open>simp_all add: len\<close>)
  then have c1: "map_option fst (read_files handle (m\<lparr>mem := (mem m)(x := v)\<rparr>) files dir fs 0)
                   = Some (length files - 1)"
    using read_files_count[OF mut[unfolded eq], of 0] by (simp add: len)
  have chk: "calculate_checksum (data @ [b]) = calculate_checksum data XOR b"
    by (simp add: calculate_checksum_def)
  show ?thesis
    using mut eq c0 c1 chk xor_changes[OF assms(3)]
    by (simp add: checksum_values) (simp add: calculate_checksum_def)
qed

lemma name_field_has_nul: "0 \<in> set (name_field name)"
proof -
  define src where "src = take (MAX_FILENAME_LENGTH - 1) (c_str (map of_char name) :: u8 list)"
  have "length src \<le> 63" by (simp add: src_def MAX_FILENAME_LENGTH_def)
  then have "0 < MAX_FILENAME_LENGTH - length src" by (simp add: MAX_FILENAME_LENGTH_def)
  then have "(0 :: u8) \<in> set (replicate (MAX_FILENAME_LENGTH - length src) 0)" by simp
  then have "0 \<in> set (src @ replicate (MAX_FILENAME_LENGTH - length src) 0)"
    by (simp only: set_append Un_iff) blast
  then show ?thesis
    unfolding name_field_def Let_def src_def .
qed

lemma in_payload_iff:
  assumes "unat (address f) + unat (fsize f) \<le> 65536"
  shows "in_payload f x \<longleftrightarrow>
           unat (address f) \<le> unat x \<and> unat x < unat (address f) + unat (fsize f)"
proof
  assume "in_payload f x"
  then obtain i where i: "i < unat (fsize f)" "x = address f + of_nat i"
    by (auto simp: in_payload_def)
  then have "unat x = unat (address f) + i"
    using assms by (simp add: unat_add_small)
  then show "unat (address f) \<le> unat x \<and> unat x < unat (address f) + unat (fsize f)"
    using i by simp
next
  assume a: "unat (address f) \<le> unat x \<and> unat x < unat (address f) + unat (fsize f)"
  define i where "i = unat x - unat (address f)"
  have i: "i < unat (fsize f)" using a unfolding i_def by linarith
  then have "unat (address f + of_nat i) = unat (address f) + i"
    using assms by (intro unat_add_small) simp
  then have "unat (address f + of_nat i) = unat x" using a unfolding i_def by linarith
  then have "x = address f + of_nat i" by (simp add: word_unat_eq_iff)
  then show "in_payload f x" using i by (auto simp: in_payload_def)
qed

lemma read_file_good:
  assumes "check_address_length handle (address f) (fsize f) = AT24C256_OK"
    and "script m = []" and "\<not> heap_exhausted m" and "0 \<in> set (filename f)"
    and "\<And>p. fs p = Out_ok"
    and "calculate_checksum (map (\<lambda>i. mem m (address f + of_nat i)) [0..<unat (fsize f)])
           = checksum f"
  shows "\<exists>p m'. read_file_from_eeprom handle m f dir fs
                   = Some (File_saved p (map (\<lambda>i. mem m (address f + of_nat i))
                                             [0..<unat (fsize f)]), m')
           \<and> script m' = [] \<and> mem m' = mem m \<and> heap_exhausted m' = heap_exhausted m"
proof -
  from at24c256_read_total[OF assms(1) _ assms(2), of "Some []"]
  obtain out m' where r: "at24c256_read handle m (address f) (Some []) (fsize f)
                            = (AT24C256_OK, out, m')" by auto
  note d = at24c256_read_OK_D[OF r]
  have "script m' = []" using d(5) assms(2) by simp
  then show ?thesis
    using assms(3,4,5,6) d(2,4)
    by (simp add: read_file_from_eeprom_def Let_def r d(1))
qed

lemma two_files_fields:
  "script two_files_machine = []" "heap_exhausted two_files_machine = False"
  "map (\<lambda>i. mem two_files_machine (1136 + of_nat i)) [0..<3] = [1, 2, 3]"
  "map (\<lambda>i. mem two_files_machine (1139 + of_nat i)) [0..<2] = [4, 5]"
  "mem two_files_machine 1137 = 2"
  by (simp_all add: two_files_machine_def blank_fields upt_rec)

lemma file_fields:
  "address file_a = 1136" "fsize file_a = 3" "checksum file_a = 0"
  "address file_b = 1139" "fsize file_b = 2" "checksum file_b = 1"
  "0 \<in> set (filename file_a)" "0 \<in> set (filename file_b)"
  by (simp_all add: file_a_def file_b_def name_field_has_nul)

lemma two_files_read:
  "\<exists>pa pb. read_outcomes (Some default_dev) two_files_machine [file_a, file_b] ''out'' host_ok
              = Some [File_saved pa [1, 2, 3], File_saved pb [4, 5]]"
proof -
  have ca: "check_address_length (Some default_dev) (address file_a) (fsize file_a) = AT24C256_OK"
    and cb: "check_address_length (Some default_dev) (address file_b) (fsize file_b) = AT24C256_OK"
    by (simp_all add: check_address_length_OK default_fields file_fields)
  have ha: "\<not> heap_exhausted two_files_machine" by (simp add: two_files_fields)
  have ka: "calculate_checksum (map (\<lambda>i. mem two_files_machine (address file_a + of_nat i))
              [0..<unat (fsize file_a)]) = checksum file_a"
    by (simp add: file_fields two_files_fields checksum_values)
  from read_file_good[OF ca two_files_fields(1) ha file_fields(7) _ ka, of host_ok "''out''"]
  obtain pa m1 where a: "read_file_from_eeprom (Some default_dev) two_files_machine file_a
                           ''out'' host_ok = Some (File_saved pa [1, 2, 3], m1)"
    and s1: "script m1 = []" and mm: "mem m1 = mem two_files_machine"
    and h1: "\<not> heap_exhausted m1"
    by (auto simp: host_ok_def file_fields two_files_fields)
  have kb: "calculate_checksum (map (\<lambda>i. mem m1 (address file_b + of_nat i))
              [0..<unat (fsize file_b)]) = checksum file_b"
    by (simp add: file_fields two_files_fields checksum_values mm)
  from read_file_good[OF cb s1 h1 file_fields(8) _ kb, of host_ok "''out''"]
  obtain pb m2 where b: "read_file_from_eeprom (Some default_dev) m1 file_b
                           ''out'' host_ok = Some (File_saved pb [4, 5], m2)"
    by (auto simp: host_ok_def file_fields two_files_fields mm)
  show ?thesis
    using a b by simp
qed

theorem one_mutated_byte_one_checksum_failure_witness:
  "map_option (map read_result)
     (read_outcomes (Some default_dev) two_files_machine [file_a, file_b] ''out'' host_ok)
     = Some [0, 0]
   \<and> 7 \<noteq> mem two_files_machine 1137
   \<and> 0 < length [file_a, file_b]
   \<and> in_payload ([file_a, file_b] ! 0) 1137
   \<and> \<not> in_payload ([file_a, file_b] ! 1) 1137
   \<and> map_option hd
       (read_outcomes (Some default_dev)
          (two_files_machine\<lparr>mem := (mem two_files_machine)(1137 := 7)\<rparr>)
          [file_a, file_b] ''out'' host_ok)
       = Some (Checksum_failed 0 5)
   \<and> map_option (map read_result)
       (read_outcomes (Some default_dev)
          (two_files_machine\<lparr>mem := (mem two_files_machine)(1137 := 7)\<rparr>)
          [file_a, file_b] ''out'' host_ok)
       = Some [- 1, 0]
   \<and> map_option fst
       (read_files (Some default_dev)
          (two_files_machine\<lparr>mem := (mem two_files_machine)(1137 := 7)\<rparr>)
          [file_a, file_b] ''out'' host_ok 0)
       = Some 1"
proof -
  from two_files_read obtain pa pb
    where ro: "read_outcomes (Some default_dev) two_files_machine [file_a, file_b] ''out'' host_ok
                 = Some [File_saved pa [1, 2, 3], File_saved pb [4, 5]]" by blast
  have ok: "\<forall>r \<in> set [File_saved pa [1, 2, 3], File_saved pb [4, 5]]. read_result r = 0"
    by simp
  have v: "(7 :: u8) \<noteq> mem two_files_machine 1137" by (simp add: two_files_fields)
  have k: "0 < length [file_a, file_b]" by simp
  have ia: "in_payload ([file_a, file_b] ! 0) 1137"
    by (simp add: in_payload_iff file_fields)
  have ib: "\<not> in_payload ([file_a, file_b] ! 1) 1137"
    by (simp add: in_payload_iff file_fields)
  have others: "\<forall>j < length [file_a, file_b]. j \<noteq> 0 \<longrightarrow> \<not> in_payload ([file_a, file_b] ! j) 1137"
    using ib by (auto simp: less_Suc_eq)
  from one_mutated_byte_one_checksum_failure[OF ro ok v k ia others]
  show ?thesis
    using ro v ia ib by (simp add: file_fields two_files_fields)
qed

end
